theory Spec2Isabelle
  imports Main
begin

section \<open>Debounced autosave of forms (app/static/shift\_detail.js)\<close>

text \<open>
  The script queries the document once for the elements of class \<open>autosave-form\<close> and,
  for each of them, creates a closure with one variable \<open>timeoutId\<close> and one function
  \<open>scheduleSave\<close>, registered as the listener of the form's \<open>input\<close> and \<open>change\<close>
  events. The script runs inside a browser: the clock, the table of active timers, the
  forms of the document and the network are the browser's. They are modelled here as an
  explicit state, with the script's functions as transformers of that state and the
  browser's event loop as a sequence of actions.
\<close>

subsection \<open>Data\<close>

text \<open>
  A form element: its class attribute, its \<open>dataset.saveUrl\<close> (\<open>None\<close> is JavaScript's
  \<open>undefined\<close>, read when the attribute \<open>data-save-url\<close> is absent) and the entries
  that \<open>new FormData(form)\<close> would collect from its controls at this moment.
\<close>

record form =
  classList :: "string list"
  saveUrl :: "string option"
  controls :: "(string \<times> string) list"

text \<open>The closure variable \<open>timeoutId\<close>: \<open>null\<close> at first, then the number returned by
  \<open>window.setTimeout\<close>.\<close>

datatype timeout_var = Null | Handle nat

text \<open>
  The functions the script hands to the browser: the arrow function given to
  \<open>setTimeout\<close> inside the closure of form \<open>f\<close>, and the empty arrow function given to
  \<open>catch\<close>.
\<close>

datatype callback = SaveCb nat | EmptyCb

record timer =
  t_handle :: nat
  t_due :: nat
  t_callback :: callback

text \<open>
  What a script can give to \<open>fetch\<close> as the body of a request: a \<open>FormData\<close> object, a
  \<open>URLSearchParams\<close> object (both hold a list of entries) or a string.
\<close>

datatype body_init =
    FormDataBody "(string \<times> string) list"
  | URLSearchParamsBody "(string \<times> string) list"
  | StringBody string

text \<open>
  One call of \<open>fetch\<close>: its first argument, the members of its options object, and the
  reactions attached to the promise it returns. \<open>req_form\<close> and \<open>req_time\<close> record which
  closure made the call and the clock at that moment; they are not sent.
\<close>

record request =
  req_form :: nat
  req_time :: nat
  req_input :: "string option"
  req_method :: string
  req_headers :: "(string \<times> string) list"
  req_body :: body_init
  req_then :: "callback list"
  req_catch :: "callback list"

text \<open>How the browser settles the promise of a call: a response (status and body) or a
  network failure.\<close>

datatype outcome = Fulfilled nat string | Rejected string

text \<open>
  The state: the clock in milliseconds, the form elements (an element is named by its
  position), the variable \<open>timeoutId\<close> of each closure, the registered listeners (form and
  event type; the listener is always that form's \<open>scheduleSave\<close>), the active timers in
  the order of their creation, the next timer handle, the log of calls of \<open>fetch\<close>, the
  log of settled promises, and the log of rejections that no handler took.
\<close>

record state =
  now :: nat
  forms :: "form list"
  timeoutId :: "nat \<Rightarrow> timeout_var"
  listeners :: "(nat \<times> string) list"
  timers :: "timer list"
  next_handle :: nat
  calls :: "request list"
  settled :: "(nat \<times> outcome) list"
  unhandled :: "nat list"

subsection \<open>The browser's primitives\<close>

text \<open>JavaScript's truthiness of the two values the script tests: \<open>undefined\<close> and the
  empty string are falsy; \<open>null\<close> and the number 0 are falsy.\<close>

definition truthy_string :: "string option \<Rightarrow> bool" where
  "truthy_string u = (case u of None \<Rightarrow> False | Some v \<Rightarrow> v \<noteq> [])"

definition truthy_var :: "timeout_var \<Rightarrow> bool" where
  "truthy_var v = (case v of Null \<Rightarrow> False | Handle h \<Rightarrow> h \<noteq> 0)"

text \<open>\<open>window.setTimeout(cb, delay)\<close> returns a fresh positive handle (a counter that only
  grows, as browsers implement it) and enters the timer; \<open>window.clearTimeout(h)\<close> removes
  the active timer of that handle and does nothing when there is none.\<close>

definition setTimeout :: "callback \<Rightarrow> nat \<Rightarrow> state \<Rightarrow> nat \<times> state" where
  "setTimeout cb delay s =
     (next_handle s,
      s\<lparr>timers := timers s @ [\<lparr>t_handle = next_handle s, t_due = now s + delay, t_callback = cb\<rparr>],
        next_handle := Suc (next_handle s)\<rparr>)"

definition clearTimeout :: "nat \<Rightarrow> state \<Rightarrow> state" where
  "clearTimeout h s = s\<lparr>timers := filter (\<lambda>tm. t_handle tm \<noteq> h) (timers s)\<rparr>"

definition FormData :: "form \<Rightarrow> body_init" where
  "FormData fm = FormDataBody (controls fm)"

definition fetch ::
  "nat \<Rightarrow> string option \<Rightarrow> string \<Rightarrow> (string \<times> string) list \<Rightarrow> body_init \<Rightarrow>
   callback list \<Rightarrow> callback list \<Rightarrow> state \<Rightarrow> state" where
  "fetch f input method headers body on_ok on_fail s =
     s\<lparr>calls := calls s @
        [\<lparr>req_form = f, req_time = now s, req_input = input, req_method = method,
          req_headers = headers, req_body = body, req_then = on_ok, req_catch = on_fail\<rparr>]\<rparr>"

text \<open>
  How the browser encodes the body of a call. The type that it derives from the kind of
  body (without the boundary or charset parameter): a \<open>FormData\<close> object goes out as
  \<open>multipart/form-data\<close>, a \<open>URLSearchParams\<close> object as
  \<open>application/x-www-form-urlencoded\<close>, a string as \<open>text/plain\<close>. That type is the
  \<open>Content-Type\<close> of the request unless the headers given to \<open>fetch\<close> name one (header
  names are compared as written).
\<close>

definition body_type :: "body_init \<Rightarrow> string" where
  "body_type b =
     (case b of
        FormDataBody es \<Rightarrow> ''multipart/form-data''
      | URLSearchParamsBody es \<Rightarrow> ''application/x-www-form-urlencoded''
      | StringBody t \<Rightarrow> ''text/plain'')"

definition content_type :: "request \<Rightarrow> string" where
  "content_type r =
     (case map_of (req_headers r) ''Content-Type'' of
        Some t \<Rightarrow> t
      | None \<Rightarrow> body_type (req_body r))"

definition querySelectorAll :: "form list \<Rightarrow> string \<Rightarrow> nat list" where
  "querySelectorAll doc cls = filter (\<lambda>i. cls \<in> set (classList (doc ! i))) [0..<length doc]"

subsection \<open>The script\<close>

text \<open>
  \<open>scheduleSave\<close> of the closure of form \<open>f\<close> (lines 6 to 21). A listener exists only for
  a form of the document, so the first test never fails in a run of the script.
\<close>

definition scheduleSave :: "nat \<Rightarrow> state \<Rightarrow> state" where
  "scheduleSave f s =
     (if \<not> f < length (forms s) then s
      else if \<not> truthy_string (saveUrl (forms s ! f)) then s
      else
        let s1 = (if truthy_var (timeoutId s f)
                  then (case timeoutId s f of Handle h \<Rightarrow> clearTimeout h s | Null \<Rightarrow> s)
                  else s);
            (h, s2) = setTimeout (SaveCb f) 800 s1
        in s2\<lparr>timeoutId := (timeoutId s2)(f := Handle h)\<rparr>)"

text \<open>The bodies of the two arrow functions (lines 13 to 20, and the empty handler of
  line 19).\<close>

definition run_callback :: "callback \<Rightarrow> state \<Rightarrow> state" where
  "run_callback cb s =
     (case cb of
        EmptyCb \<Rightarrow> s
      | SaveCb f \<Rightarrow>
          if \<not> f < length (forms s) then s
          else
            let payload = FormData (forms s ! f)
            in fetch f (saveUrl (forms s ! f)) ''POST'' [(''X-Requested-With'', ''fetch'')]
                 payload [] [EmptyCb] s)"

text \<open>The body of the \<open>forEach\<close> (lines 4 to 24) and the whole script, run on a document.\<close>

definition attach :: "nat \<Rightarrow> state \<Rightarrow> state" where
  "attach f s =
     s\<lparr>timeoutId := (timeoutId s)(f := Null),
       listeners := listeners s @ [(f, ''input''), (f, ''change'')]\<rparr>"

definition loaded :: "form list \<Rightarrow> state" where
  "loaded doc =
     \<lparr>now = 0, forms = doc, timeoutId = (\<lambda>_. Null), listeners = [], timers = [],
      next_handle = 1, calls = [], settled = [], unhandled = []\<rparr>"

definition init :: "form list \<Rightarrow> state" where
  "init doc = fold attach (querySelectorAll doc ''autosave-form'') (loaded doc)"

subsection \<open>The event loop\<close>

text \<open>
  What the browser does between two runs of the script's functions: it dispatches an event
  of some type on a form, the user changes the controls of a form, a form is added to the
  document, time passes, or the promise of a call is settled.
\<close>

datatype action =
    Dispatch nat string
  | Edit nat "(string \<times> string) list"
  | AddForm form
  | Advance nat
  | Settle nat outcome

definition dispatchEvent :: "nat \<Rightarrow> string \<Rightarrow> state \<Rightarrow> state" where
  "dispatchEvent f ty s =
     fold (\<lambda>l st. if fst l = f \<and> snd l = ty then scheduleSave (fst l) st else st) (listeners s) s"

definition edit :: "nat \<Rightarrow> (string \<times> string) list \<Rightarrow> state \<Rightarrow> state" where
  "edit f fs s =
     (if f < length (forms s) then s\<lparr>forms := (forms s)[f := (forms s ! f)\<lparr>controls := fs\<rparr>]\<rparr> else s)"

definition addForm :: "form \<Rightarrow> state \<Rightarrow> state" where
  "addForm fm s = s\<lparr>forms := forms s @ [fm]\<rparr>"

text \<open>A timer fires at its due time: the clock stands there while its callback runs.\<close>

definition fire :: "timer \<Rightarrow> state \<Rightarrow> state" where
  "fire tm s = run_callback (t_callback tm) (s\<lparr>now := max (now s) (t_due tm)\<rparr>)"

text \<open>Time passes by \<open>d\<close> milliseconds: the timers due by then leave the table and fire,
  the earliest first, and among equal due times the one created first.\<close>

definition advance :: "nat \<Rightarrow> state \<Rightarrow> state" where
  "advance d s =
     (let t = now s + d;
          due = sort_key t_due (filter (\<lambda>tm. t_due tm \<le> t) (timers s));
          s1 = s\<lparr>timers := filter (\<lambda>tm. \<not> t_due tm \<le> t) (timers s)\<rparr>
      in (fold fire due s1)\<lparr>now := t\<rparr>)"

text \<open>The promise of call number \<open>i\<close> is settled, once: a fulfilment runs its fulfilment
  reactions, a rejection its rejection reactions, and a rejection with no reaction is an
  unhandled rejection.\<close>

definition settle :: "nat \<Rightarrow> outcome \<Rightarrow> state \<Rightarrow> state" where
  "settle i oc s =
     (if i < length (calls s) \<and> i \<notin> fst ` set (settled s) then
        let s1 = s\<lparr>settled := settled s @ [(i, oc)]\<rparr>; r = calls s ! i
        in (case oc of
              Fulfilled status body \<Rightarrow> fold run_callback (req_then r) s1
            | Rejected why \<Rightarrow>
                if req_catch r = [] then s1\<lparr>unhandled := unhandled s1 @ [i]\<rparr>
                else fold run_callback (req_catch r) s1)
      else s)"

fun step :: "action \<Rightarrow> state \<Rightarrow> state" where
  "step (Dispatch f ty) s = dispatchEvent f ty s"
| "step (Edit f fs) s = edit f fs s"
| "step (AddForm fm) s = addForm fm s"
| "step (Advance d) s = advance d s"
| "step (Settle i oc) s = settle i oc s"

definition run :: "action list \<Rightarrow> state \<Rightarrow> state" where
  "run tr s = fold step tr s"

subsection \<open>Observations\<close>

definition timers_of :: "nat \<Rightarrow> state \<Rightarrow> timer list" where
  "timers_of f s = filter (\<lambda>tm. t_callback tm = SaveCb f) (timers s)"

definition calls_of :: "nat \<Rightarrow> state \<Rightarrow> request list" where
  "calls_of f s = filter (\<lambda>r. req_form r = f) (calls s)"

text \<open>The table of timers that \<open>scheduleSave\<close> of form \<open>f\<close> leaves after its
  \<open>clearTimeout\<close>, and the call that a firing timer makes on the forms \<open>fs\<close>.\<close>

definition cancelled :: "nat \<Rightarrow> state \<Rightarrow> timer list" where
  "cancelled f s =
     (case timeoutId s f of
        Handle h \<Rightarrow> if h \<noteq> 0 then filter (\<lambda>tm. t_handle tm \<noteq> h) (timers s) else timers s
      | Null \<Rightarrow> timers s)"

definition the_form :: "timer \<Rightarrow> nat" where
  "the_form tm = (case t_callback tm of SaveCb g \<Rightarrow> g | EmptyCb \<Rightarrow> 0)"

definition save_request :: "form list \<Rightarrow> nat \<Rightarrow> nat \<Rightarrow> request" where
  "save_request fs g t =
     \<lparr>req_form = g, req_time = t, req_input = saveUrl (fs ! g), req_method = ''POST'',
      req_headers = [(''X-Requested-With'', ''fetch'')], req_body = FormData (fs ! g),
      req_then = [], req_catch = [EmptyCb]\<rparr>"

definition listening :: "state \<Rightarrow> nat \<Rightarrow> bool" where
  "listening s f = (f \<in> fst ` set (listeners s))"

subsection \<open>Invariants of the reachable states\<close>

definition inv_listen :: "state \<Rightarrow> bool" where
  "inv_listen s =
     (distinct (listeners s) \<and> (\<forall>l \<in> set (listeners s). fst l < length (forms s)))"

definition inv_handles :: "state \<Rightarrow> bool" where
  "inv_handles s =
     (0 < next_handle s \<and>
      (\<forall>g h. timeoutId s g = Handle h \<longrightarrow> 0 < h \<and> h < next_handle s) \<and>
      (\<forall>g g' h. timeoutId s g = Handle h \<and> timeoutId s g' = Handle h \<longrightarrow> g = g'))"

definition inv_timers :: "state \<Rightarrow> bool" where
  "inv_timers s =
     (distinct (map t_handle (timers s)) \<and>
      (\<forall>tm \<in> set (timers s).
         t_callback tm = SaveCb (the_form tm) \<and>
         timeoutId s (the_form tm) = Handle (t_handle tm) \<and>
         listening s (the_form tm) \<and>
         truthy_string (saveUrl (forms s ! the_form tm)) \<and>
         now s < t_due tm \<and> t_due tm \<le> now s + 800))"

definition inv_calls :: "state \<Rightarrow> bool" where
  "inv_calls s =
     (unhandled s = [] \<and>
      (\<forall>r \<in> set (calls s).
         listening s (req_form r) \<and> req_time r \<le> now s \<and>
         saveUrl (forms s ! req_form r) = req_input r \<and> truthy_string (req_input r) \<and>
         req_method r = ''POST'' \<and> req_headers r = [(''X-Requested-With'', ''fetch'')] \<and>
         req_then r = [] \<and> req_catch r = [EmptyCb]))"

definition wf :: "state \<Rightarrow> bool" where
  "wf s = (inv_listen s \<and> inv_handles s \<and> inv_timers s \<and> inv_calls s)"

text \<open>The timers due by time \<open>t\<close>, in the order in which they fire.\<close>

definition due_by :: "nat \<Rightarrow> state \<Rightarrow> timer list" where
  "due_by t s = sort_key t_due (filter (\<lambda>tm. t_due tm \<le> t) (timers s))"

text \<open>The forms the script selects in the document it is loaded with, and what holds of
  every state that a run from that document reaches besides \<open>wf\<close>: the listeners are
  those registered at the start, and the forms of the document keep their place and their
  endpoint.\<close>

definition marked :: "form list \<Rightarrow> nat \<Rightarrow> bool" where
  "marked doc f = (f < length doc \<and> ''autosave-form'' \<in> set (classList (doc ! f)))"

definition reach :: "form list \<Rightarrow> state \<Rightarrow> bool" where
  "reach doc s =
     (wf s \<and> listeners s = listeners (init doc) \<and> length doc \<le> length (forms s) \<and>
      (\<forall>g < length doc. saveUrl (forms s ! g) = saveUrl (doc ! g)))"

subsection \<open>Bursts of events\<close>

text \<open>
  The two event types the script listens to; an action that runs \<open>scheduleSave\<close> of form
  \<open>f\<close>; a stretch of actions that never does; the time that a stretch of actions takes.
\<close>

definition event_type :: "string \<Rightarrow> bool" where
  "event_type ty = (ty = ''input'' \<or> ty = ''change'')"

fun qualifying :: "nat \<Rightarrow> action \<Rightarrow> bool" where
  "qualifying f (Dispatch g ty) = (g = f \<and> event_type ty)"
| "qualifying f _ = False"

definition idle :: "nat \<Rightarrow> action list \<Rightarrow> bool" where
  "idle f tr = list_all (\<lambda>a. \<not> qualifying f a) tr"

fun elapsed :: "action list \<Rightarrow> nat" where
  "elapsed [] = 0"
| "elapsed (Advance d # tr) = d + elapsed tr"
| "elapsed (_ # tr) = elapsed tr"

text \<open>
  A burst on form \<open>f\<close>: each segment is an \<open>input\<close> or \<open>change\<close> event on \<open>f\<close> followed by
  actions that are not such an event (edits, events of other forms, time passing) and
  take less than 800 ms. \<open>span\<close> is the time from the first event of the burst to its
  last.
\<close>

fun burst :: "nat \<Rightarrow> (string \<times> action list) list \<Rightarrow> action list" where
  "burst f [] = []"
| "burst f (seg # segs) = Dispatch f (fst seg) # snd seg @ burst f segs"

definition quiet :: "nat \<Rightarrow> (string \<times> action list) list \<Rightarrow> bool" where
  "quiet f segs =
     list_all (\<lambda>seg. event_type (fst seg) \<and> idle f (snd seg) \<and> elapsed (snd seg) < 800) segs"

definition span :: "(string \<times> action list) list \<Rightarrow> nat" where
  "span segs = sum_list (map (\<lambda>seg. elapsed (snd seg)) (butlast segs))"

text \<open>A stretch of actions in which nobody changes the controls of form \<open>f\<close>.\<close>

fun edits :: "nat \<Rightarrow> action \<Rightarrow> bool" where
  "edits f (Edit g fs) = (g = f)"
| "edits f _ = False"

definition unedited :: "nat \<Rightarrow> action list \<Rightarrow> bool" where
  "unedited f tr = list_all (\<lambda>a. \<not> edits f a) tr"

text \<open>A document, and a state, in which form \<open>f\<close> has lost its \<open>data-save-url\<close> attribute.\<close>

definition without_endpoint :: "nat \<Rightarrow> form list \<Rightarrow> form list" where
  "without_endpoint f doc = doc[f := (doc ! f)\<lparr>saveUrl := None\<rparr>]"

definition strip :: "nat \<Rightarrow> state \<Rightarrow> state" where
  "strip f s = s\<lparr>forms := without_endpoint f (forms s)\<rparr>"

subsection \<open>What a run shows of one form\<close>

text \<open>
  An action on another form: an event dispatched on it or a change of its controls. The
  actions of a run that are not such actions are the form's \<open>own\<close>: its events and
  edits, and what concerns every form (time passing, a form being added, a promise being
  settled).
\<close>

fun foreign :: "nat \<Rightarrow> action \<Rightarrow> bool" where
  "foreign f (Dispatch g ty) = (g \<noteq> f)"
| "foreign f (Edit g fs) = (g \<noteq> f)"
| "foreign f _ = False"

definition own :: "nat \<Rightarrow> action list \<Rightarrow> action list" where
  "own f tr = filter (\<lambda>a. \<not> foreign f a) tr"

text \<open>
  What a state shows of form \<open>f\<close>: the clock, the number of forms, the form itself when it
  exists, the due times of its active timers, and the calls made for it.
\<close>

type_synonym view = "nat \<times> nat \<times> form option \<times> nat list \<times> request list"

definition view :: "nat \<Rightarrow> state \<Rightarrow> view" where
  "view f s =
     (now s, length (forms s), (if f < length (forms s) then Some (forms s ! f) else None),
      map t_due (timers_of f s), calls_of f s)"

text \<open>How an action moves the view of form \<open>f\<close>, for a run from the document \<open>doc\<close>.\<close>

definition view_request :: "form option \<Rightarrow> nat \<Rightarrow> nat \<Rightarrow> request" where
  "view_request fo f t =
     \<lparr>req_form = f, req_time = t, req_input = saveUrl (the fo), req_method = ''POST'',
      req_headers = [(''X-Requested-With'', ''fetch'')], req_body = FormDataBody (controls (the fo)),
      req_then = [], req_catch = [EmptyCb]\<rparr>"

fun vstep :: "form list \<Rightarrow> nat \<Rightarrow> action \<Rightarrow> view \<Rightarrow> view" where
  "vstep doc f (Dispatch g ty) (n, len, fo, dues, cs) =
     (n, len, fo,
      (if g = f \<and> marked doc f \<and> event_type ty \<and> truthy_string (saveUrl (doc ! f))
       then [n + 800] else dues), cs)"
| "vstep doc f (Edit g fs) (n, len, fo, dues, cs) =
     (n, len, (if g = f then map_option (\<lambda>x. x\<lparr>controls := fs\<rparr>) fo else fo), dues, cs)"
| "vstep doc f (AddForm fm) (n, len, fo, dues, cs) =
     (n, Suc len, (if f = len then Some fm else fo), dues, cs)"
| "vstep doc f (Advance d) (n, len, fo, dues, cs) =
     (n + d, len, fo, filter (\<lambda>t. \<not> t \<le> n + d) dues,
      cs @ map (view_request fo f) (filter (\<lambda>t. t \<le> n + d) dues))"
| "vstep doc f (Settle i oc) v = v"

section \<open>Properties\<close>

lemma scheduleSave_eq:
  assumes "f < length (forms s)" "truthy_string (saveUrl (forms s ! f))"
  shows "scheduleSave f s =
     s\<lparr>timers := cancelled f s @ [\<lparr>t_handle = next_handle s, t_due = now s + 800, t_callback = SaveCb f\<rparr>],
       next_handle := Suc (next_handle s),
       timeoutId := (timeoutId s)(f := Handle (next_handle s))\<rparr>"
  using assms
  by (cases "timeoutId s f")
     (simp_all add: scheduleSave_def cancelled_def truthy_var_def setTimeout_def clearTimeout_def)

lemma scheduleSave_idle:
  "\<not> (f < length (forms s) \<and> truthy_string (saveUrl (forms s ! f))) \<Longrightarrow> scheduleSave f s = s"
  by (auto simp: scheduleSave_def)

lemma fold_once:
  "distinct ls \<Longrightarrow>
   fold (\<lambda>l st. if fst l = f \<and> snd l = ty then g (fst l) st else st) ls s =
     (if (f, ty) \<in> set ls then g f s else s)"
proof (induction ls arbitrary: s)
  case Nil
  then show ?case by simp
next
  case (Cons l ls)
  show ?case
  proof (cases "l = (f, ty)")
    case True
    with Cons.prems have "(f, ty) \<notin> set ls" by simp
    with Cons True show ?thesis by simp
  next
    case False
    then have "\<not> (fst l = f \<and> snd l = ty)" by (cases l) simp
    with Cons False show ?thesis by auto
  qed
qed

lemma dispatchEvent_eq:
  "distinct (listeners s) \<Longrightarrow>
   dispatchEvent f ty s = (if (f, ty) \<in> set (listeners s) then scheduleSave f s else s)"
  unfolding dispatchEvent_def by (rule fold_once)

lemma cancelled_wf:
  assumes "inv_handles s" "inv_timers s"
  shows "cancelled f s = filter (\<lambda>tm. t_callback tm \<noteq> SaveCb f) (timers s)"
proof -
  have own: "\<And>tm. tm \<in> set (timers s) \<Longrightarrow>
      t_callback tm = SaveCb (the_form tm) \<and> timeoutId s (the_form tm) = Handle (t_handle tm)"
    using assms(2) by (simp add: inv_timers_def)
  have pos: "\<And>g h. timeoutId s g = Handle h \<Longrightarrow> 0 < h"
    using assms(1) by (auto simp: inv_handles_def)
  have inj: "\<And>g g' h. timeoutId s g = Handle h \<Longrightarrow> timeoutId s g' = Handle h \<Longrightarrow> g = g'"
    using assms(1) unfolding inv_handles_def by blast
  show ?thesis
  proof (cases "timeoutId s f")
    case Null
    have "\<And>tm. tm \<in> set (timers s) \<Longrightarrow> t_callback tm \<noteq> SaveCb f"
      using own Null by (metis callback.inject timeout_var.distinct(1))
    then show ?thesis using Null by (simp add: cancelled_def)
  next
    case (Handle h)
    then have "0 < h" using pos by blast
    moreover have "\<And>tm. tm \<in> set (timers s) \<Longrightarrow> (t_handle tm \<noteq> h) = (t_callback tm \<noteq> SaveCb f)"
      using own Handle inj by (metis callback.inject timeout_var.inject)
    ultimately show ?thesis using Handle by (simp add: cancelled_def cong: filter_cong)
  qed
qed

lemma fold_attach_fields:
  "listeners (fold attach fs s) = listeners s @ concat (map (\<lambda>f. [(f, ''input''), (f, ''change'')]) fs)"
  "timeoutId (fold attach fs s) g = (if g \<in> set fs then Null else timeoutId s g)"
  "forms (fold attach fs s) = forms s" "now (fold attach fs s) = now s"
  "timers (fold attach fs s) = timers s" "next_handle (fold attach fs s) = next_handle s"
  "calls (fold attach fs s) = calls s" "settled (fold attach fs s) = settled s"
  "unhandled (fold attach fs s) = unhandled s"
  by (induction fs arbitrary: s; simp add: attach_def)+

lemma distinct_listeners:
  "distinct fs \<Longrightarrow> distinct (concat (map (\<lambda>f. [(f, ''input''), (f, ''change'')]) fs))"
  by (induction fs) auto

lemma set_querySelectorAll: "set (querySelectorAll doc cls) = {i. i < length doc \<and> cls \<in> set (classList (doc ! i))}"
  by (auto simp: querySelectorAll_def)

lemma listening_init:
  "listening (init doc) f = (f < length doc \<and> ''autosave-form'' \<in> set (classList (doc ! f)))"
  by (auto simp: listening_def init_def fold_attach_fields loaded_def set_querySelectorAll image_iff)

lemma listeners_init_mem:
  "((f, ty) \<in> set (listeners (init doc))) =
     (f < length doc \<and> ''autosave-form'' \<in> set (classList (doc ! f)) \<and> (ty = ''input'' \<or> ty = ''change''))"
  by (auto simp: init_def fold_attach_fields loaded_def set_querySelectorAll)

lemma init_fields:
  "forms (init doc) = doc" "now (init doc) = 0" "timers (init doc) = []"
  "next_handle (init doc) = 1" "calls (init doc) = []" "settled (init doc) = []"
  "unhandled (init doc) = []" "timeoutId (init doc) g = Null"
  by (simp_all add: init_def fold_attach_fields loaded_def)

lemma wf_init: "wf (init doc)"
proof -
  have "distinct (querySelectorAll doc ''autosave-form'')"
    by (simp add: querySelectorAll_def)
  then have "distinct (listeners (init doc))"
    by (simp add: init_def fold_attach_fields loaded_def distinct_listeners)
  moreover have "\<forall>l \<in> set (listeners (init doc)). fst l < length (forms (init doc))"
  proof
    fix l assume "l \<in> set (listeners (init doc))"
    then have "(fst l, snd l) \<in> set (listeners (init doc))" by simp
    then show "fst l < length (forms (init doc))"
      unfolding listeners_init_mem by (simp add: init_fields)
  qed
  ultimately have "inv_listen (init doc)" by (simp add: inv_listen_def)
  moreover have "inv_handles (init doc)" by (simp add: inv_handles_def init_fields)
  moreover have "inv_timers (init doc)" by (simp add: inv_timers_def init_fields)
  moreover have "inv_calls (init doc)" by (simp add: inv_calls_def init_fields)
  ultimately show ?thesis by (simp add: wf_def)
qed

lemma listening_lt: "inv_listen s \<Longrightarrow> listening s f \<Longrightarrow> f < length (forms s)"
  by (auto simp: inv_listen_def listening_def)

lemma wf_scheduleSave:
  assumes "wf s" "listening s f"
  shows "wf (scheduleSave f s)"
proof (cases "truthy_string (saveUrl (forms s ! f))")
  case False
  then show ?thesis using assms by (simp add: scheduleSave_idle)
next
  case True
  have lt: "f < length (forms s)" using assms by (simp add: wf_def listening_lt)
  have il: "inv_listen s" and ih: "inv_handles s" and it: "inv_timers s" and ic: "inv_calls s"
    using assms(1) by (simp_all add: wf_def)
  let ?new = "\<lparr>t_handle = next_handle s, t_due = now s + 800, t_callback = SaveCb f\<rparr>"
  let ?s' = "s\<lparr>timers := filter (\<lambda>tm. t_callback tm \<noteq> SaveCb f) (timers s) @ [?new],
       next_handle := Suc (next_handle s),
       timeoutId := (timeoutId s)(f := Handle (next_handle s))\<rparr>"
  have eq: "scheduleSave f s = ?s'"
    using scheduleSave_eq [OF lt True] cancelled_wf [OF ih it] by simp
  have old: "\<And>tm. tm \<in> set (timers s) \<Longrightarrow> t_handle tm < next_handle s"
    using ih it unfolding inv_handles_def inv_timers_def by blast
  have 1: "inv_listen ?s'" using il by (simp add: inv_listen_def)
  have pos: "0 < next_handle s"
    and rng: "\<And>g h. timeoutId s g = Handle h \<Longrightarrow> 0 < h \<and> h < next_handle s"
    and inj: "\<And>g g' h. timeoutId s g = Handle h \<Longrightarrow> timeoutId s g' = Handle h \<Longrightarrow> g = g'"
    using ih unfolding inv_handles_def by blast+
  have 2: "inv_handles ?s'" unfolding inv_handles_def
  proof (intro conjI allI impI)
    show "0 < next_handle ?s'" by simp
  next
    fix g h assume "timeoutId ?s' g = Handle h"
    then show "0 < h" using pos rng [of g h] by (simp split: if_splits)
  next
    fix g h assume "timeoutId ?s' g = Handle h"
    then show "h < next_handle ?s'" using rng [of g h] by (simp split: if_splits)
  next
    fix g g' h assume "timeoutId ?s' g = Handle h \<and> timeoutId ?s' g' = Handle h"
    then show "g = g'" using rng [of g h] rng [of g' h] inj [of g h g']
      by (simp split: if_splits)
  qed
  have "distinct (map t_handle (timers ?s'))"
  proof -
    have "next_handle s \<notin> t_handle ` set (timers s)" using old by fastforce
    moreover have "distinct (map t_handle (filter (\<lambda>tm. t_callback tm \<noteq> SaveCb f) (timers s)))"
      using it by (simp add: inv_timers_def distinct_map_filter)
    ultimately show ?thesis by auto
  qed
  moreover have "\<forall>tm \<in> set (timers ?s').
         t_callback tm = SaveCb (the_form tm) \<and>
         timeoutId ?s' (the_form tm) = Handle (t_handle tm) \<and>
         listening ?s' (the_form tm) \<and>
         truthy_string (saveUrl (forms ?s' ! the_form tm)) \<and>
         now ?s' < t_due tm \<and> t_due tm \<le> now ?s' + 800"
  proof
    fix tm assume "tm \<in> set (timers ?s')"
    then consider "tm \<in> set (timers s)" "t_callback tm \<noteq> SaveCb f" | "tm = ?new" by auto
    then show "t_callback tm = SaveCb (the_form tm) \<and>
         timeoutId ?s' (the_form tm) = Handle (t_handle tm) \<and>
         listening ?s' (the_form tm) \<and>
         truthy_string (saveUrl (forms ?s' ! the_form tm)) \<and>
         now ?s' < t_due tm \<and> t_due tm \<le> now ?s' + 800"
    proof cases
      case 1
      then have p: "t_callback tm = SaveCb (the_form tm) \<and>
         timeoutId s (the_form tm) = Handle (t_handle tm) \<and>
         listening s (the_form tm) \<and>
         truthy_string (saveUrl (forms s ! the_form tm)) \<and>
         now s < t_due tm \<and> t_due tm \<le> now s + 800"
        using it unfolding inv_timers_def by blast
      with 1 have "the_form tm \<noteq> f" by auto
      with p show ?thesis by (simp add: listening_def)
    next
      case 2
      then have "the_form tm = f" by (simp add: the_form_def)
      with 2 True assms(2) show ?thesis by (simp add: listening_def)
    qed
  qed
  ultimately have 3: "inv_timers ?s'" unfolding inv_timers_def by blast
  have 4: "inv_calls ?s'" using ic by (auto simp: inv_calls_def listening_def)
  show ?thesis unfolding eq wf_def using 1 2 3 4 by blast
qed

lemma wf_dispatchEvent:
  assumes "wf s"
  shows "wf (dispatchEvent f ty s)"
proof -
  have d: "distinct (listeners s)" using assms by (simp add: wf_def inv_listen_def)
  show ?thesis
  proof (cases "(f, ty) \<in> set (listeners s)")
    case True
    then have "listening s f" unfolding listening_def by force
    then show ?thesis using assms True by (simp add: dispatchEvent_eq [OF d] wf_scheduleSave)
  next
    case False
    then show ?thesis using assms by (simp add: dispatchEvent_eq [OF d])
  qed
qed

lemma wf_edit:
  assumes "wf s"
  shows "wf (edit f fs s)"
proof (cases "f < length (forms s)")
  case False
  then show ?thesis using assms by (simp add: edit_def)
next
  case True
  let ?s' = "s\<lparr>forms := (forms s)[f := (forms s ! f)\<lparr>controls := fs\<rparr>]\<rparr>"
  have eq: "edit f fs s = ?s'" using True by (simp add: edit_def)
  have url: "\<And>g. saveUrl (forms ?s' ! g) = saveUrl (forms s ! g)"
    using True by (simp add: nth_list_update)
  have il: "inv_listen s" and ih: "inv_handles s" and it: "inv_timers s" and ic: "inv_calls s"
    using assms(1) by (simp_all add: wf_def)
  have 1: "inv_listen ?s'" using il by (simp add: inv_listen_def)
  have 2: "inv_handles ?s'" using ih by (simp add: inv_handles_def)
  have 3: "inv_timers ?s'" using it unfolding inv_timers_def url by (simp add: listening_def)
  have 4: "inv_calls ?s'" using ic unfolding inv_calls_def url by (auto simp: listening_def)
  show ?thesis unfolding eq wf_def using 1 2 3 4 by blast
qed

lemma wf_addForm:
  assumes "wf s"
  shows "wf (addForm fm s)"
proof -
  let ?s' = "s\<lparr>forms := forms s @ [fm]\<rparr>"
  have il: "inv_listen s" and ih: "inv_handles s" and it: "inv_timers s" and ic: "inv_calls s"
    using assms(1) by (simp_all add: wf_def)
  have nth: "\<And>g. listening s g \<Longrightarrow> forms ?s' ! g = forms s ! g"
    using listening_lt [OF il] by (simp add: nth_append)
  have ls: "\<And>g. listening ?s' g = listening s g" by (simp add: listening_def)
  have 1: "inv_listen ?s'" using il by (auto simp: inv_listen_def)
  have 2: "inv_handles ?s'" using ih by (simp add: inv_handles_def)
  have 3: "inv_timers ?s'" unfolding inv_timers_def
  proof (rule conjI, goal_cases)
    case 1
    show ?case using it by (simp add: inv_timers_def)
  next
    case 2
    show ?case
    proof (rule ballI)
    fix tm assume "tm \<in> set (timers ?s')"
    then have "tm \<in> set (timers s)" by simp
    then have p: "t_callback tm = SaveCb (the_form tm) \<and>
         timeoutId s (the_form tm) = Handle (t_handle tm) \<and>
         listening s (the_form tm) \<and>
         truthy_string (saveUrl (forms s ! the_form tm)) \<and>
         now s < t_due tm \<and> t_due tm \<le> now s + 800"
      using it unfolding inv_timers_def by blast
    then show "t_callback tm = SaveCb (the_form tm) \<and>
         timeoutId ?s' (the_form tm) = Handle (t_handle tm) \<and>
         listening ?s' (the_form tm) \<and>
         truthy_string (saveUrl (forms ?s' ! the_form tm)) \<and>
         now ?s' < t_due tm \<and> t_due tm \<le> now ?s' + 800"
      using nth [of "the_form tm"] ls by simp
  qed
  qed
  have 4: "inv_calls ?s'" unfolding inv_calls_def
  proof (rule conjI, goal_cases)
    case 1
    show ?case using ic by (simp add: inv_calls_def)
  next
    case 2
    show ?case
    proof (rule ballI)
    fix r assume "r \<in> set (calls ?s')"
    then have "r \<in> set (calls s)" by simp
    then have p: "listening s (req_form r) \<and> req_time r \<le> now s \<and>
         saveUrl (forms s ! req_form r) = req_input r \<and> truthy_string (req_input r) \<and>
         req_method r = ''POST'' \<and> req_headers r = [(''X-Requested-With'', ''fetch'')] \<and>
         req_then r = [] \<and> req_catch r = [EmptyCb]"
      using ic unfolding inv_calls_def by blast
    then show "listening ?s' (req_form r) \<and> req_time r \<le> now ?s' \<and>
         saveUrl (forms ?s' ! req_form r) = req_input r \<and> truthy_string (req_input r) \<and>
         req_method r = ''POST'' \<and> req_headers r = [(''X-Requested-With'', ''fetch'')] \<and>
         req_then r = [] \<and> req_catch r = [EmptyCb]"
      using nth [of "req_form r"] ls by simp
  qed
  qed
  show ?thesis unfolding addForm_def wf_def using 1 2 3 4 by blast
qed

lemma fire_eq:
  assumes "t_callback tm = SaveCb (the_form tm)" "the_form tm < length (forms s)" "now s \<le> t_due tm"
  shows "fire tm s =
     s\<lparr>now := t_due tm, calls := calls s @ [save_request (forms s) (the_form tm) (t_due tm)]\<rparr>"
  using assms by (simp add: fire_def run_callback_def fetch_def save_request_def max_def)

lemma fold_fire:
  assumes "\<forall>tm \<in> set tms. t_callback tm = SaveCb (the_form tm) \<and> the_form tm < length (forms s) \<and>
             now s \<le> t_due tm"
    and "sorted (map t_due tms)"
  shows "fold fire tms s =
     s\<lparr>now := (if tms = [] then now s else t_due (last tms)),
       calls := calls s @ map (\<lambda>tm. save_request (forms s) (the_form tm) (t_due tm)) tms\<rparr>"
  using assms
proof (induction tms arbitrary: s)
  case Nil
  then show ?case by simp
next
  case (Cons tm tms)
  let ?s1 = "s\<lparr>now := t_due tm, calls := calls s @ [save_request (forms s) (the_form tm) (t_due tm)]\<rparr>"
  have f: "fire tm s = ?s1" using Cons.prems(1) by (simp add: fire_eq)
  have a: "\<forall>x \<in> set tms. t_callback x = SaveCb (the_form x) \<and> the_form x < length (forms ?s1) \<and>
             now ?s1 \<le> t_due x"
    using Cons.prems by auto
  have b: "sorted (map t_due tms)" using Cons.prems(2) by simp
  show ?case using Cons.IH [OF a b] by (simp add: f)
qed

lemma wf_timer:
  assumes "wf s" "tm \<in> set (timers s)"
  shows "t_callback tm = SaveCb (the_form tm)" "the_form tm < length (forms s)"
    "now s < t_due tm" "t_due tm \<le> now s + 800" "listening s (the_form tm)"
    "truthy_string (saveUrl (forms s ! the_form tm))"
    "timeoutId s (the_form tm) = Handle (t_handle tm)"
proof -
  have p: "t_callback tm = SaveCb (the_form tm) \<and>
         timeoutId s (the_form tm) = Handle (t_handle tm) \<and>
         listening s (the_form tm) \<and>
         truthy_string (saveUrl (forms s ! the_form tm)) \<and>
         now s < t_due tm \<and> t_due tm \<le> now s + 800"
    using assms unfolding wf_def inv_timers_def by blast
  then show "t_callback tm = SaveCb (the_form tm)" "now s < t_due tm" "t_due tm \<le> now s + 800"
    "listening s (the_form tm)" "truthy_string (saveUrl (forms s ! the_form tm))"
    "timeoutId s (the_form tm) = Handle (t_handle tm)" by simp_all
  from p show "the_form tm < length (forms s)"
    using assms(1) listening_lt unfolding wf_def by blast
qed

lemma advance_eq:
  assumes "wf s"
  shows "advance d s =
     s\<lparr>timers := filter (\<lambda>tm. \<not> t_due tm \<le> now s + d) (timers s),
       calls := calls s @ map (\<lambda>tm. save_request (forms s) (the_form tm) (t_due tm)) (due_by (now s + d) s),
       now := now s + d\<rparr>"
proof -
  let ?s1 = "s\<lparr>timers := filter (\<lambda>tm. \<not> t_due tm \<le> now s + d) (timers s)\<rparr>"
  have a: "\<forall>tm \<in> set (due_by (now s + d) s). t_callback tm = SaveCb (the_form tm) \<and>
      the_form tm < length (forms ?s1) \<and> now ?s1 \<le> t_due tm"
    using wf_timer [OF assms] by (auto simp: due_by_def less_imp_le)
  have b: "sorted (map t_due (due_by (now s + d) s))" by (simp add: due_by_def)
  have "advance d s = (fold fire (due_by (now s + d) s) ?s1)\<lparr>now := now s + d\<rparr>"
    by (simp add: advance_def due_by_def Let_def)
  then show ?thesis unfolding fold_fire [OF a b] by simp
qed

lemma wf_call:
  assumes "wf s" "r \<in> set (calls s)"
  shows "listening s (req_form r)" "req_time r \<le> now s"
    "saveUrl (forms s ! req_form r) = req_input r" "truthy_string (req_input r)"
    "req_method r = ''POST''" "req_headers r = [(''X-Requested-With'', ''fetch'')]"
    "req_then r = []" "req_catch r = [EmptyCb]"
proof -
  have "listening s (req_form r) \<and> req_time r \<le> now s \<and>
         saveUrl (forms s ! req_form r) = req_input r \<and> truthy_string (req_input r) \<and>
         req_method r = ''POST'' \<and> req_headers r = [(''X-Requested-With'', ''fetch'')] \<and>
         req_then r = [] \<and> req_catch r = [EmptyCb]"
    using assms unfolding wf_def inv_calls_def by blast
  then show "listening s (req_form r)" "req_time r \<le> now s"
    "saveUrl (forms s ! req_form r) = req_input r" "truthy_string (req_input r)"
    "req_method r = ''POST''" "req_headers r = [(''X-Requested-With'', ''fetch'')]"
    "req_then r = []" "req_catch r = [EmptyCb]" by simp_all
qed

lemma wf_advance:
  assumes "wf s"
  shows "wf (advance d s)"
proof -
  let ?t = "now s + d"
  let ?new = "map (\<lambda>tm. save_request (forms s) (the_form tm) (t_due tm)) (due_by ?t s)"
  let ?s' = "s\<lparr>timers := filter (\<lambda>tm. \<not> t_due tm \<le> ?t) (timers s),
       calls := calls s @ ?new, now := ?t\<rparr>"
  have il: "inv_listen s" and ih: "inv_handles s" and it: "inv_timers s" and ic: "inv_calls s"
    using assms(1) by (simp_all add: wf_def)
  have 1: "inv_listen ?s'" using il by (simp add: inv_listen_def)
  have 2: "inv_handles ?s'" using ih by (simp add: inv_handles_def)
  have 3: "inv_timers ?s'" unfolding inv_timers_def
  proof (rule conjI, goal_cases)
    case 1
    show ?case using it by (simp add: inv_timers_def distinct_map_filter)
  next
    case 2
    show ?case
    proof (rule ballI)
      fix tm assume "tm \<in> set (timers ?s')"
      then have m: "tm \<in> set (timers s)" and l: "?t < t_due tm" by auto
      show "t_callback tm = SaveCb (the_form tm) \<and>
         timeoutId ?s' (the_form tm) = Handle (t_handle tm) \<and>
         listening ?s' (the_form tm) \<and>
         truthy_string (saveUrl (forms ?s' ! the_form tm)) \<and>
         now ?s' < t_due tm \<and> t_due tm \<le> now ?s' + 800"
        using wf_timer [OF assms m] l by (simp add: listening_def)
    qed
  qed
  have 4: "inv_calls ?s'" unfolding inv_calls_def
  proof (rule conjI, goal_cases)
    case 1
    show ?case using ic by (simp add: inv_calls_def)
  next
    case 2
    show ?case
    proof (rule ballI)
      fix r assume "r \<in> set (calls ?s')"
      then consider "r \<in> set (calls s)" | "r \<in> set ?new" by auto
      then show "listening ?s' (req_form r) \<and> req_time r \<le> now ?s' \<and>
         saveUrl (forms ?s' ! req_form r) = req_input r \<and> truthy_string (req_input r) \<and>
         req_method r = ''POST'' \<and> req_headers r = [(''X-Requested-With'', ''fetch'')] \<and>
         req_then r = [] \<and> req_catch r = [EmptyCb]"
      proof cases
        case 1
        show ?thesis using wf_call [OF assms 1] by (simp add: listening_def)
      next
        case 2
        then obtain tm where m: "tm \<in> set (timers s)" and l: "t_due tm \<le> ?t"
          and r: "r = save_request (forms s) (the_form tm) (t_due tm)"
          by (auto simp: due_by_def)
        show ?thesis using wf_timer [OF assms m] l
          by (simp add: r save_request_def listening_def)
      qed
    qed
  qed
  show ?thesis unfolding advance_eq [OF assms] wf_def using 1 2 3 4 by blast
qed

lemma settle_eq:
  assumes "wf s"
  shows "settle i oc s =
     (if i < length (calls s) \<and> i \<notin> fst ` set (settled s)
      then s\<lparr>settled := settled s @ [(i, oc)]\<rparr> else s)"
proof (cases "i < length (calls s) \<and> i \<notin> fst ` set (settled s)")
  case False
  then show ?thesis by (auto simp: settle_def)
next
  case True
  then have "calls s ! i \<in> set (calls s)" by simp
  from wf_call(7,8) [OF assms this] True show ?thesis
    by (cases oc) (simp_all add: settle_def run_callback_def)
qed

lemma wf_settle:
  assumes "wf s"
  shows "wf (settle i oc s)"
proof -
  have "wf (s\<lparr>settled := settled s @ [(i, oc)]\<rparr>)"
    using assms
    by (simp add: wf_def inv_listen_def inv_handles_def inv_timers_def inv_calls_def listening_def)
  then show ?thesis using assms by (simp add: settle_eq)
qed

lemma wf_step: "wf s \<Longrightarrow> wf (step a s)"
  by (cases a) (simp_all add: wf_dispatchEvent wf_edit wf_addForm wf_advance wf_settle)

lemma run_Nil: "run [] s = s"
  by (simp add: run_def)

lemma run_Cons: "run (a # tr) s = run tr (step a s)"
  by (simp add: run_def)

lemma run_append: "run (tr @ tr') s = run tr' (run tr s)"
  by (simp add: run_def)

lemma wf_run: "wf s \<Longrightarrow> wf (run tr s)"
  by (induction tr arbitrary: s) (simp_all add: run_Nil run_Cons wf_step)

lemma wf_reachable: "wf (run tr (init doc))"
  by (simp add: wf_run wf_init)

lemma reach_wf: "reach doc s \<Longrightarrow> wf s"
  by (simp add: reach_def)

lemma reach_listener:
  "reach doc s \<Longrightarrow>
   ((f, ty) \<in> set (listeners s)) = (marked doc f \<and> event_type ty)"
  by (simp add: reach_def listeners_init_mem marked_def event_type_def)

lemma reach_listening: "reach doc s \<Longrightarrow> listening s f = marked doc f"
  by (simp add: reach_def listening_def listening_init [unfolded listening_def] marked_def)

lemma reach_saveUrl: "reach doc s \<Longrightarrow> f < length doc \<Longrightarrow> saveUrl (forms s ! f) = saveUrl (doc ! f)"
  by (simp add: reach_def)

lemma reach_length: "reach doc s \<Longrightarrow> f < length doc \<Longrightarrow> f < length (forms s)"
  by (simp add: reach_def)

lemma reach_init: "reach doc (init doc)"
  by (simp add: reach_def wf_init init_fields)

lemma dispatch_eq:
  assumes "reach doc s"
  shows "dispatchEvent f ty s =
     (if marked doc f \<and> event_type ty \<and> truthy_string (saveUrl (doc ! f))
      then s\<lparr>timers := filter (\<lambda>tm. t_callback tm \<noteq> SaveCb f) (timers s) @
                 [\<lparr>t_handle = next_handle s, t_due = now s + 800, t_callback = SaveCb f\<rparr>],
             next_handle := Suc (next_handle s),
             timeoutId := (timeoutId s)(f := Handle (next_handle s))\<rparr>
      else s)"
proof -
  have w: "wf s" using assms by (rule reach_wf)
  then have d: "distinct (listeners s)" and ih: "inv_handles s" and it: "inv_timers s"
    by (simp_all add: wf_def inv_listen_def)
  show ?thesis
  proof (cases "marked doc f \<and> event_type ty")
    case False
    then have "(f, ty) \<notin> set (listeners s)" using reach_listener [OF assms, of f ty] by simp
    then have "dispatchEvent f ty s = s" by (simp add: dispatchEvent_eq [OF d])
    then show ?thesis using False by auto
  next
    case True
    then have m: "(f, ty) \<in> set (listeners s)" using reach_listener [OF assms, of f ty] by simp
    have lt: "f < length doc" using True by (simp add: marked_def)
    have u: "saveUrl (forms s ! f) = saveUrl (doc ! f)" using assms lt by (rule reach_saveUrl)
    have l: "f < length (forms s)" using assms lt by (rule reach_length)
    show ?thesis
    proof (cases "truthy_string (saveUrl (doc ! f))")
      case False
      then show ?thesis using m u by (simp add: dispatchEvent_eq [OF d] scheduleSave_idle)
    next
      case t: True
      then have "truthy_string (saveUrl (forms s ! f))" using u by simp
      from scheduleSave_eq [OF l this] t True m show ?thesis
        by (simp add: dispatchEvent_eq [OF d] cancelled_wf [OF ih it])
    qed
  qed
qed

lemma reach_step:
  assumes "reach doc s"
  shows "reach doc (step a s)"
proof -
  have w: "wf (step a s)" using assms by (simp add: reach_wf wf_step)
  have w0: "wf s" using assms by (rule reach_wf)
  have "listeners (step a s) = listeners s \<and> length (forms s) \<le> length (forms (step a s)) \<and>
      (\<forall>g < length (forms s). saveUrl (forms (step a s) ! g) = saveUrl (forms s ! g))"
  proof (cases a)
    case (Dispatch f ty)
    then show ?thesis by (simp add: dispatch_eq [OF assms])
  next
    case (Edit f fs)
    then show ?thesis by (simp add: edit_def nth_list_update)
  next
    case (AddForm fm)
    then show ?thesis by (simp add: addForm_def nth_append)
  next
    case (Advance d)
    then show ?thesis by (simp add: advance_eq [OF w0])
  next
    case (Settle i oc)
    then show ?thesis by (simp add: settle_eq [OF w0])
  qed
  then show ?thesis using assms w unfolding reach_def by auto
qed

lemma reach_run: "reach doc s \<Longrightarrow> reach doc (run tr s)"
  by (induction tr arbitrary: s) (simp_all add: run_Nil run_Cons reach_step)

lemma reach_trace: "reach doc (run tr (init doc))"
  by (simp add: reach_run reach_init)

lemma filter_one:
  "distinct (map h xs) \<Longrightarrow> \<forall>x \<in> set xs. P x \<longrightarrow> h x = c \<Longrightarrow> length (filter P xs) \<le> 1"
proof (induction xs)
  case Nil
  then show ?case by simp
next
  case (Cons x xs)
  show ?case
  proof (cases "P x")
    case False
    then show ?thesis using Cons by simp
  next
    case True
    then have "h x = c" using Cons.prems(2) by simp
    have "\<forall>y \<in> set xs. \<not> P y"
    proof (intro ballI notI)
      fix y assume y: "y \<in> set xs" "P y"
      then have "h y = h x" using Cons.prems(2) \<open>h x = c\<close> by simp
      moreover have "h x \<notin> h ` set xs" using Cons.prems(1) by simp
      ultimately show False using y(1) by (metis imageI)
    qed
    then have "filter P xs = []" by (simp add: filter_empty_conv)
    then show ?thesis using True by simp
  qed
qed

lemma one_timer:
  assumes "wf s"
  shows "length (timers_of f s) \<le> 1"
proof -
  have d: "distinct (map t_handle (timers s))" using assms by (simp add: wf_def inv_timers_def)
  have "\<forall>tm \<in> set (timers s). t_callback tm = SaveCb f \<longrightarrow>
      Handle (t_handle tm) = timeoutId s f"
  proof (intro ballI impI)
    fix tm assume m: "tm \<in> set (timers s)" and c: "t_callback tm = SaveCb f"
    from wf_timer(1) [OF assms m] c have "the_form tm = f" by simp
    with wf_timer(7) [OF assms m] show "Handle (t_handle tm) = timeoutId s f" by simp
  qed
  then have "\<forall>tm \<in> set (timers s). t_callback tm = SaveCb f \<longrightarrow>
      t_handle tm = (case timeoutId s f of Handle h \<Rightarrow> h | Null \<Rightarrow> 0)"
    by (auto split: timeout_var.splits)
  from filter_one [OF d this] show ?thesis by (simp add: timers_of_def)
qed

lemma one_timer_cases:
  assumes "wf s"
  obtains "timers_of f s = []" | tm where "timers_of f s = [tm]"
  using one_timer [OF assms, of f]
  by (cases "timers_of f s") (auto simp: Suc_le_eq)

lemma timers_of_dispatch:
  assumes "reach doc s"
  shows "timers_of f (dispatchEvent g ty s) =
     (if g = f \<and> marked doc f \<and> event_type ty \<and> truthy_string (saveUrl (doc ! f))
      then [\<lparr>t_handle = next_handle s, t_due = now s + 800, t_callback = SaveCb f\<rparr>]
      else timers_of f s)"
proof -
  have a: "g \<noteq> f \<Longrightarrow>
      filter (\<lambda>x. t_callback x \<noteq> SaveCb g \<and> t_callback x = SaveCb f) (timers s) =
      filter (\<lambda>tm. t_callback tm = SaveCb f) (timers s)"
    by (rule filter_cong) auto
  have b: "filter (\<lambda>x. t_callback x \<noteq> SaveCb f \<and> t_callback x = SaveCb f) (timers s) = []"
    by (simp add: filter_empty_conv)
  show ?thesis
    by (cases "g = f") (simp_all add: dispatch_eq [OF assms] timers_of_def a b)
qed

lemma dispatch_frame:
  assumes "reach doc s"
  shows "calls (dispatchEvent g ty s) = calls s" "now (dispatchEvent g ty s) = now s"
    "forms (dispatchEvent g ty s) = forms s" "settled (dispatchEvent g ty s) = settled s"
    "g \<noteq> f \<Longrightarrow> timeoutId (dispatchEvent g ty s) f = timeoutId s f"
  by (simp_all add: dispatch_eq [OF assms])

lemma sort_key_short: "length xs \<le> 1 \<Longrightarrow> sort_key k xs = xs"
  by (cases xs) auto

lemma due_of:
  assumes "wf s"
  shows "filter (\<lambda>tm. the_form tm = f) (due_by t s) = filter (\<lambda>tm. t_due tm \<le> t) (timers_of f s)"
proof -
  have "filter (\<lambda>tm. the_form tm = f) (due_by t s) = filter (\<lambda>tm. t_callback tm = SaveCb f) (due_by t s)"
  proof (rule filter_cong [OF refl])
    fix tm assume "tm \<in> set (due_by t s)"
    then have "tm \<in> set (timers s)" by (simp add: due_by_def)
    from wf_timer(1) [OF assms this] show "(the_form tm = f) = (t_callback tm = SaveCb f)" by auto
  qed
  also have "\<dots> = sort_key t_due (filter (\<lambda>tm. t_due tm \<le> t) (timers_of f s))"
    by (simp add: due_by_def timers_of_def filter_sort conj_commute)
  also have "\<dots> = filter (\<lambda>tm. t_due tm \<le> t) (timers_of f s)"
  proof (rule sort_key_short)
    have "length (filter (\<lambda>tm. t_due tm \<le> t) (timers_of f s)) \<le> length (timers_of f s)"
      by (rule length_filter_le)
    then show "length (filter (\<lambda>tm. t_due tm \<le> t) (timers_of f s)) \<le> 1"
      using one_timer [OF assms, of f] by (rule le_trans)
  qed
  finally show ?thesis .
qed

lemma req_form_save_request [simp]: "req_form (save_request fs g t) = g"
  by (simp add: save_request_def)

lemma calls_of_advance:
  assumes "wf s"
  shows "calls_of f (advance d s) =
     calls_of f s @ map (\<lambda>tm. save_request (forms s) f (t_due tm))
        (filter (\<lambda>tm. t_due tm \<le> now s + d) (timers_of f s))"
proof -
  have "filter (\<lambda>r. req_form r = f)
      (map (\<lambda>tm. save_request (forms s) (the_form tm) (t_due tm)) (due_by (now s + d) s)) =
     map (\<lambda>tm. save_request (forms s) (the_form tm) (t_due tm))
       (filter (\<lambda>tm. the_form tm = f) (due_by (now s + d) s))"
    by (simp add: filter_map o_def)
  also have "\<dots> = map (\<lambda>tm. save_request (forms s) f (t_due tm))
       (filter (\<lambda>tm. the_form tm = f) (due_by (now s + d) s))"
    by (rule map_cong) simp_all
  finally show ?thesis
    by (simp add: advance_eq [OF assms] calls_of_def due_of [OF assms])
qed

lemma timers_of_advance:
  assumes "wf s"
  shows "timers_of f (advance d s) = filter (\<lambda>tm. \<not> t_due tm \<le> now s + d) (timers_of f s)"
  by (simp add: advance_eq [OF assms] timers_of_def conj_commute)

lemma advance_frame:
  assumes "wf s"
  shows "now (advance d s) = now s + d" "forms (advance d s) = forms s"
    "timeoutId (advance d s) = timeoutId s" "settled (advance d s) = settled s"
  by (simp_all add: advance_eq [OF assms])

lemma other_frame:
  "timers (edit g fs s) = timers s" "calls (edit g fs s) = calls s" "now (edit g fs s) = now s"
  "timeoutId (edit g fs s) = timeoutId s"
  "timers (addForm fm s) = timers s" "calls (addForm fm s) = calls s" "now (addForm fm s) = now s"
  "timeoutId (addForm fm s) = timeoutId s"
  by (simp_all add: edit_def addForm_def)

lemma settle_frame:
  assumes "wf s"
  shows "timers (settle i oc s) = timers s" "calls (settle i oc s) = calls s"
    "now (settle i oc s) = now s" "forms (settle i oc s) = forms s"
    "timeoutId (settle i oc s) = timeoutId s" "listeners (settle i oc s) = listeners s"
    "next_handle (settle i oc s) = next_handle s" "unhandled (settle i oc s) = unhandled s"
  by (simp_all add: settle_eq [OF assms])

lemma now_step: "wf s \<Longrightarrow> now (step a s) = now s + elapsed [a]"
  by (cases a) (simp_all add: advance_frame other_frame settle_frame dispatchEvent_eq wf_def inv_listen_def wf_def [symmetric] scheduleSave_def Let_def setTimeout_def clearTimeout_def split: timeout_var.splits prod.splits)

lemma idle_step:
  assumes "reach doc s" "\<not> qualifying f a" "\<forall>tm \<in> set (timers_of f s). now s + elapsed [a] < t_due tm"
  shows "timers_of f (step a s) = timers_of f s" "calls_of f (step a s) = calls_of f s"
proof -
  have w: "wf s" using assms(1) by (rule reach_wf)
  have nd: "\<And>d. a = Advance d \<Longrightarrow> filter (\<lambda>tm. t_due tm \<le> now s + d) (timers_of f s) = []"
    using assms(3) by (auto simp: filter_empty_conv)
  have kp: "\<And>d. a = Advance d \<Longrightarrow> filter (\<lambda>tm. \<not> t_due tm \<le> now s + d) (timers_of f s) = timers_of f s"
    using assms(3) by (auto simp: filter_id_conv)
  show "timers_of f (step a s) = timers_of f s"
  proof (cases a)
    case (Dispatch g ty)
    then have "\<not> (g = f \<and> marked doc f \<and> event_type ty \<and> truthy_string (saveUrl (doc ! f)))"
      using assms(2) by auto
    then show ?thesis unfolding Dispatch step.simps timers_of_dispatch [OF assms(1)] by (rule if_not_P)
  next
    case (Advance d)
    then show ?thesis using kp by (simp add: timers_of_advance [OF w])
  qed (simp_all add: timers_of_def other_frame settle_frame [OF w])
  show "calls_of f (step a s) = calls_of f s"
  proof (cases a)
    case (Dispatch g ty)
    then show ?thesis by (simp add: calls_of_def dispatch_frame [OF assms(1)])
  next
    case (Advance d)
    then show ?thesis using nd by (simp add: calls_of_advance [OF w])
  qed (simp_all add: calls_of_def other_frame settle_frame [OF w])
qed

lemma elapsed_append: "elapsed (tr @ tr') = elapsed tr + elapsed tr'"
  by (induction tr rule: elapsed.induct) simp_all

lemma now_run: "wf s \<Longrightarrow> now (run tr s) = now s + elapsed tr"
proof (induction tr arbitrary: s)
  case Nil
  then show ?case by (simp add: run_Nil)
next
  case (Cons a tr)
  have "elapsed (a # tr) = elapsed [a] + elapsed tr" using elapsed_append [of "[a]" tr] by simp
  then show ?case using Cons.IH [OF wf_step [OF Cons.prems]] now_step [OF Cons.prems, of a]
    by (simp add: run_Cons)
qed

lemma idle_run:
  assumes "reach doc s" "idle f tr" "\<forall>tm \<in> set (timers_of f s). now s + elapsed tr < t_due tm"
  shows "timers_of f (run tr s) = timers_of f s \<and> calls_of f (run tr s) = calls_of f s"
  using assms
proof (induction tr arbitrary: s)
  case Nil
  then show ?case by (simp add: run_Nil)
next
  case (Cons a tr)
  have e: "elapsed (a # tr) = elapsed [a] + elapsed tr" using elapsed_append [of "[a]" tr] by simp
  have q: "\<not> qualifying f a" and i: "idle f tr" using Cons.prems(2) by (simp_all add: idle_def)
  have b: "\<forall>tm \<in> set (timers_of f s). now s + elapsed [a] < t_due tm"
    using Cons.prems(3) e by auto
  note st = idle_step [OF Cons.prems(1) q b]
  have r: "reach doc (step a s)" using Cons.prems(1) by (rule reach_step)
  have n: "now (step a s) = now s + elapsed [a]" by (rule now_step [OF reach_wf [OF Cons.prems(1)]])
  have c: "\<forall>tm \<in> set (timers_of f (step a s)). now (step a s) + elapsed tr < t_due tm"
    using Cons.prems(3) e by (simp add: st n add.assoc)
  show ?case using Cons.IH [OF r i c] st by (simp add: run_Cons)
qed

lemma span_Cons: "segs \<noteq> [] \<Longrightarrow> span (seg # segs) = elapsed (snd seg) + span segs"
  by (simp add: span_def)

lemma span_single: "span [seg] = 0"
  by (simp add: span_def)

lemma burst_run:
  assumes "reach doc s" "marked doc f" "truthy_string (saveUrl (doc ! f))" "quiet f segs" "segs \<noteq> []"
  shows "map t_due (timers_of f (run (burst f segs) s)) = [now s + span segs + 800] \<and>
     calls_of f (run (burst f segs) s) = calls_of f s \<and>
     now (run (burst f segs) s) = now s + span segs + elapsed (snd (last segs))"
  using assms(1,4,5)
proof (induction segs arbitrary: s)
  case Nil
  then show ?case by simp
next
  case (Cons seg segs)
  let ?s1 = "dispatchEvent f (fst seg) s"
  let ?s2 = "run (snd seg) ?s1"
  have ev: "event_type (fst seg)" and id: "idle f (snd seg)" and el: "elapsed (snd seg) < 800"
    and qs: "quiet f segs"
    using Cons.prems(2) by (simp_all add: quiet_def)
  have r1: "reach doc ?s1" using reach_step [OF Cons.prems(1), of "Dispatch f (fst seg)"] by simp
  have r2: "reach doc ?s2" using r1 by (rule reach_run)
  have t1: "timers_of f ?s1 = [\<lparr>t_handle = next_handle s, t_due = now s + 800, t_callback = SaveCb f\<rparr>]"
    using assms(2,3) ev by (simp add: timers_of_dispatch [OF Cons.prems(1)])
  have c1: "calls_of f ?s1 = calls_of f s" and n1: "now ?s1 = now s"
    by (simp_all add: calls_of_def dispatch_frame [OF Cons.prems(1)])
  have "\<forall>tm \<in> set (timers_of f ?s1). now ?s1 + elapsed (snd seg) < t_due tm"
    unfolding t1 n1 using el by simp
  from idle_run [OF r1 id this]
  have t2: "timers_of f ?s2 = timers_of f ?s1" and c2: "calls_of f ?s2 = calls_of f s"
    by (simp_all add: c1)
  have n2: "now ?s2 = now s + elapsed (snd seg)"
    using now_run [OF reach_wf [OF r1], of "snd seg"] by (simp add: n1)
  have run: "run (burst f (seg # segs)) s = run (burst f segs) ?s2"
    by (simp add: run_Cons run_append)
  show ?case
  proof (cases "segs = []")
    case True
    show ?thesis unfolding run using t2 t1 c2 n2 by (simp add: True run_Nil span_single)
  next
    case False
    show ?thesis unfolding run using Cons.IH [OF r2 qs False] False
      by (simp add: c2 n2 span_Cons add.assoc)
  qed
qed

lemma fires_once:
  assumes "wf s" "map t_due (timers_of f s) = [T]" "T \<le> now s + D"
  shows "calls_of f (advance D s) = calls_of f s @ [save_request (forms s) f T]"
    "timers_of f (advance D s) = []"
proof -
  from assms(2) obtain tm where tm: "timers_of f s = [tm]" "t_due tm = T" by auto
  show "calls_of f (advance D s) = calls_of f s @ [save_request (forms s) f T]"
    using tm assms(3) by (simp add: calls_of_advance [OF assms(1)])
  show "timers_of f (advance D s) = []"
    using tm assms(3) by (simp add: timers_of_advance [OF assms(1)])
qed

lemma burst_fires:
  assumes "reach doc s" "marked doc f" "truthy_string (saveUrl (doc ! f))" "quiet f segs" "segs \<noteq> []"
    "800 \<le> elapsed (snd (last segs)) + D"
  shows "calls_of f (run (burst f segs @ [Advance D]) s) =
     calls_of f s @ [save_request (forms (run (burst f segs) s)) f (now s + span segs + 800)]"
    "timers_of f (run (burst f segs @ [Advance D]) s) = []"
proof -
  let ?s' = "run (burst f segs) s"
  note b = burst_run [OF assms(1-5)]
  have w: "wf ?s'" by (rule reach_wf [OF reach_run [OF assms(1)]])
  have t: "map t_due (timers_of f ?s') = [now s + span segs + 800]" using b by simp
  have l: "now s + span segs + 800 \<le> now ?s' + D" using b assms(6) by simp
  have run: "run (burst f segs @ [Advance D]) s = advance D ?s'"
    by (simp add: run_append run_Cons run_Nil)
  show "calls_of f (run (burst f segs @ [Advance D]) s) =
     calls_of f s @ [save_request (forms ?s') f (now s + span segs + 800)]"
    unfolding run fires_once(1) [OF w t l] using b by simp
  show "timers_of f (run (burst f segs @ [Advance D]) s) = []"
    unfolding run by (rule fires_once(2) [OF w t l])
qed

lemma elapsed_burst: "elapsed (burst f segs) = sum_list (map (\<lambda>seg. elapsed (snd seg)) segs)"
  by (induction segs) (simp_all add: elapsed_append)

lemma save_request_reach:
  assumes "reach doc s" "marked doc f"
  shows "save_request (forms s) f T =
     \<lparr>req_form = f, req_time = T, req_input = saveUrl (doc ! f), req_method = ''POST'',
      req_headers = [(''X-Requested-With'', ''fetch'')], req_body = FormDataBody (controls (forms s ! f)),
      req_then = [], req_catch = [EmptyCb]\<rparr>"
  using reach_saveUrl [OF assms(1), of f] assms(2)
  by (simp add: save_request_def FormData_def marked_def)

text \<open>
  C1. On a form that the script selected and that declares a (non-empty) save endpoint, a
  burst of \<open>length segs\<close> \<open>input\<close> or \<open>change\<close> events, each followed by less than 800 ms
  of anything but such an event on this form, and then a pause that completes 800 ms,
  adds exactly one call for this form, made 800 ms after the clock of the last event
  (which is the clock at the start plus \<open>span segs\<close>). This holds from every state that a
  run of the script reaches, whatever the other forms do meanwhile.
\<close>

theorem burst_yields_one_call:
  assumes "marked doc f" and "truthy_string (saveUrl (doc ! f))"
    and "segs \<noteq> []" and "quiet f segs"
    and "800 \<le> elapsed (snd (last segs)) + D"
  shows "calls_of f (run (burst f segs @ [Advance D]) (run pre (init doc))) =
     calls_of f (run pre (init doc)) @
       [\<lparr>req_form = f,
         req_time = now (run (burst f (butlast segs)) (run pre (init doc))) + 800,
         req_input = saveUrl (doc ! f), req_method = ''POST'',
         req_headers = [(''X-Requested-With'', ''fetch'')],
         req_body = FormDataBody (controls (forms (run (burst f segs) (run pre (init doc))) ! f)),
         req_then = [], req_catch = [EmptyCb]\<rparr>] \<and>
     now (run (burst f (butlast segs)) (run pre (init doc))) = now (run pre (init doc)) + span segs \<and>
     timers_of f (run (burst f segs @ [Advance D]) (run pre (init doc))) = []"
proof -
  let ?s = "run pre (init doc)"
  have r: "reach doc ?s" by (rule reach_trace)
  have r': "reach doc (run (burst f segs) ?s)" using r by (rule reach_run)
  have n: "now (run (burst f (butlast segs)) ?s) = now ?s + span segs"
    using now_run [OF reach_wf [OF r], of "burst f (butlast segs)"]
    by (simp add: elapsed_burst span_def)
  show ?thesis
    using burst_fires [OF r assms(1,2,4,3,5)] n by (simp add: save_request_reach [OF r' assms(1)])
qed

theorem burst_yields_one_call_witness:
  "marked [\<lparr>classList = [''autosave-form''], saveUrl = Some ''/save/42'', controls = []\<rparr>] 0 \<and>
   truthy_string (saveUrl ([\<lparr>classList = [''autosave-form''], saveUrl = Some ''/save/42'', controls = []\<rparr>] ! 0)) \<and>
   [(''input'', [Advance 300, Edit 0 [(''note'', ''xy'')]]), (''input'', [])] \<noteq> [] \<and>
   quiet 0 [(''input'', [Advance 300, Edit 0 [(''note'', ''xy'')]]), (''input'', [])] \<and>
   800 \<le> elapsed (snd (last [(''input'', [Advance 300, Edit 0 [(''note'', ''xy'')]]), (''input'', [])])) + 800 \<and>
   calls_of 0 (run (burst 0 [(''input'', [Advance 300, Edit 0 [(''note'', ''xy'')]]), (''input'', [])] @ [Advance 800])
       (run [Edit 0 [(''note'', ''x'')]]
         (init [\<lparr>classList = [''autosave-form''], saveUrl = Some ''/save/42'', controls = []\<rparr>]))) =
     [\<lparr>req_form = 0, req_time = 1100, req_input = Some ''/save/42'', req_method = ''POST'',
       req_headers = [(''X-Requested-With'', ''fetch'')], req_body = FormDataBody [(''note'', ''xy'')],
       req_then = [], req_catch = [EmptyCb]\<rparr>]"
proof -
  let ?doc = "[\<lparr>classList = [''autosave-form''], saveUrl = Some ''/save/42'', controls = []\<rparr>]"
  let ?segs = "[(''input'', [Advance 300, Edit 0 [(''note'', ''xy'')]]), (''input'', [])]"
  have h1: "marked ?doc 0" by (simp add: marked_def)
  have h2: "truthy_string (saveUrl (?doc ! 0))" by (simp add: truthy_string_def)
  have h3: "?segs \<noteq> []" by simp
  have h4: "quiet 0 ?segs" by (simp add: quiet_def idle_def event_type_def)
  have h5: "800 \<le> elapsed (snd (last ?segs)) + 800" by simp
  note defs = run_def init_def loaded_def querySelectorAll_def attach_def dispatchEvent_def
    scheduleSave_def truthy_string_def truthy_var_def setTimeout_def clearTimeout_def
    advance_def fire_def run_callback_def fetch_def FormData_def edit_def calls_of_def
  have e: "calls_of 0 (run [Edit 0 [(''note'', ''x'')]] (init ?doc)) = []"
    "now (run (burst 0 (butlast ?segs)) (run [Edit 0 [(''note'', ''x'')]] (init ?doc))) = 300"
    "controls (forms (run (burst 0 ?segs) (run [Edit 0 [(''note'', ''x'')]] (init ?doc))) ! 0) = [(''note'', ''xy'')]"
    by (simp_all add: defs)
  show ?thesis
    using h1 h2 h3 h4 h5 burst_yields_one_call [OF h1 h2 h3 h4 h5, of "[Edit 0 [(''note'', ''x'')]]"]
    unfolding e by simp
qed

lemma forms_step:
  assumes "reach doc s" "f < length (forms s)" "\<not> edits f a"
  shows "forms (step a s) ! f = forms s ! f"
proof (cases a)
  case (Dispatch g ty)
  then show ?thesis by (simp add: dispatch_frame [OF assms(1)])
next
  case (Edit g fs)
  then show ?thesis using assms(3) by (simp add: edit_def)
next
  case (AddForm fm)
  then show ?thesis using assms(2) by (simp add: addForm_def nth_append)
next
  case (Advance d)
  then show ?thesis by (simp add: advance_frame [OF reach_wf [OF assms(1)]])
next
  case (Settle i oc)
  then show ?thesis by (simp add: settle_frame [OF reach_wf [OF assms(1)]])
qed

lemma length_forms_step: "reach doc s \<Longrightarrow> length (forms s) \<le> length (forms (step a s))"
  by (cases a)
    (simp_all add: dispatch_frame advance_frame settle_frame reach_wf edit_def addForm_def)

lemma forms_run:
  assumes "reach doc s" "f < length (forms s)" "unedited f tr"
  shows "forms (run tr s) ! f = forms s ! f"
  using assms
proof (induction tr arbitrary: s)
  case Nil
  then show ?case by (simp add: run_Nil)
next
  case (Cons a tr)
  have n: "\<not> edits f a" and u: "unedited f tr" using Cons.prems(3) by (simp_all add: unedited_def)
  have r: "reach doc (step a s)" using Cons.prems(1) by (rule reach_step)
  have l: "f < length (forms (step a s))"
    using length_forms_step [OF Cons.prems(1), of a] Cons.prems(2) by simp
  show ?case
    using Cons.IH [OF r l u] forms_step [OF Cons.prems(1,2) n] by (simp add: run_Cons)
qed

lemma controls_edit: "f < length (forms s) \<Longrightarrow> controls (forms (edit f v s) ! f) = v"
  by (simp add: edit_def)

text \<open>
  C2. The payload is read when the timer fires, not when it was scheduled. After an
  \<open>input\<close> or \<open>change\<close> event on a saving form \<open>f\<close>, let the controls of \<open>f\<close> be set to \<open>v\<close>
  without any further such event, and let nothing set them again before the timer of the
  event fires (all of it within the 800 ms): the one call that the firing adds for \<open>f\<close>
  has as body the \<open>FormData\<close> object of the entries \<open>v\<close>, whatever the controls held when
  the event scheduled the timer.
\<close>

theorem payload_read_at_firing:
  assumes "marked doc f" and "truthy_string (saveUrl (doc ! f))" and "event_type ty"
    and "idle f acts" and "idle f acts'" and "unedited f acts'"
    and "elapsed acts + elapsed acts' < 800"
    and "800 \<le> elapsed acts + elapsed acts' + D"
  shows "map req_body
       (calls_of f (run (Dispatch f ty # acts @ Edit f v # acts' @ [Advance D]) (run pre (init doc)))) =
     map req_body (calls_of f (run pre (init doc))) @ [FormDataBody v]"
proof -
  let ?s = "run pre (init doc)"
  let ?segs = "[(ty, acts @ Edit f v # acts')]"
  let ?s1 = "run (Dispatch f ty # acts) ?s"
  have r: "reach doc ?s" by (rule reach_trace)
  have r1: "reach doc ?s1" using r by (rule reach_run)
  have l1: "f < length (forms ?s1)" using reach_length [OF r1] assms(1) by (simp add: marked_def)
  have re: "reach doc (edit f v ?s1)" using reach_step [OF r1, of "Edit f v"] by simp
  have le: "f < length (forms (edit f v ?s1))" using l1 by (simp add: edit_def)
  have tr: "burst f ?segs = Dispatch f ty # acts @ Edit f v # acts'" by simp
  have q: "quiet f ?segs"
    using assms(3,4,5,7) by (simp add: quiet_def idle_def elapsed_append)
  have d: "800 \<le> elapsed (snd (last ?segs)) + D" using assms(8) by (simp add: elapsed_append)
  have st: "run (burst f ?segs) ?s = run acts' (edit f v ?s1)"
    unfolding tr by (simp add: run_def)
  have c: "controls (forms (run (burst f ?segs) ?s) ! f) = v"
    unfolding st using forms_run [OF re le assms(6)] controls_edit [OF l1] by simp
  have ne: "?segs \<noteq> []" by simp
  have t: "Dispatch f ty # acts @ Edit f v # acts' @ [Advance D] = burst f ?segs @ [Advance D]"
    by simp
  have "map req_body (calls_of f (run (burst f ?segs @ [Advance D]) ?s)) =
      map req_body (calls_of f ?s) @ [FormDataBody v]"
    unfolding burst_fires(1) [OF r assms(1,2) q ne d] using c
    by (simp add: save_request_def FormData_def del: burst.simps)
  then show ?thesis unfolding t .
qed

theorem payload_read_at_firing_witness:
  "marked [\<lparr>classList = [''autosave-form''], saveUrl = Some ''/save/42'', controls = []\<rparr>] 0 \<and>
   truthy_string (saveUrl ([\<lparr>classList = [''autosave-form''], saveUrl = Some ''/save/42'', controls = []\<rparr>] ! 0)) \<and>
   event_type ''input'' \<and>
   idle 0 [Advance 100, Edit 0 [(''q'', ''ab'')], Advance 100] \<and> idle 0 [Advance 500] \<and>
   unedited 0 [Advance 500] \<and>
   elapsed [Advance 100, Edit 0 [(''q'', ''ab'')], Advance 100] + elapsed [Advance 500] < 800 \<and>
   800 \<le> elapsed [Advance 100, Edit 0 [(''q'', ''ab'')], Advance 100] + elapsed [Advance 500] + 100 \<and>
   map req_body
     (calls_of 0
       (run (Dispatch 0 ''input'' # [Advance 100, Edit 0 [(''q'', ''ab'')], Advance 100] @
               Edit 0 [(''q'', ''abc'')] # [Advance 500] @ [Advance 100])
         (run [Edit 0 [(''q'', ''a'')]]
           (init [\<lparr>classList = [''autosave-form''], saveUrl = Some ''/save/42'', controls = []\<rparr>])))) =
     [FormDataBody [(''q'', ''abc'')]]"
proof -
  let ?doc = "[\<lparr>classList = [''autosave-form''], saveUrl = Some ''/save/42'', controls = []\<rparr>]"
  have h1: "marked ?doc 0" by (simp add: marked_def)
  have h2: "truthy_string (saveUrl (?doc ! 0))" by (simp add: truthy_string_def)
  have h3: "event_type ''input''" by (simp add: event_type_def)
  have h4: "idle 0 [Advance 100, Edit 0 [(''q'', ''ab'')], Advance 100]" by (simp add: idle_def)
  have h5: "idle 0 [Advance 500]" by (simp add: idle_def)
  have h6: "unedited 0 [Advance 500]" by (simp add: unedited_def)
  have h7: "elapsed [Advance 100, Edit 0 [(''q'', ''ab'')], Advance 100] + elapsed [Advance 500] < 800"
    by simp
  have h8: "800 \<le> elapsed [Advance 100, Edit 0 [(''q'', ''ab'')], Advance 100] + elapsed [Advance 500] + 100"
    by simp
  have e: "calls_of 0 (run [Edit 0 [(''q'', ''a'')]] (init ?doc)) = []"
    by (simp add: run_def init_def loaded_def querySelectorAll_def attach_def edit_def calls_of_def)
  show ?thesis
    using h1 h2 h3 h4 h5 h6 h7 h8
      payload_read_at_firing [OF h1 h2 h3 h4 h5 h6 h7 h8, of "[(''q'', ''abc'')]" "[Edit 0 [(''q'', ''a'')]]"]
    unfolding e by simp
qed

lemma never_step:
  assumes "reach doc s" "\<not> (marked doc f \<and> truthy_string (saveUrl (doc ! f)))" "timers_of f s = []"
  shows "timers_of f (step a s) = []" "calls_of f (step a s) = calls_of f s"
proof -
  have w: "wf s" using assms(1) by (rule reach_wf)
  have c: "\<And>g ty. \<not> (g = f \<and> marked doc f \<and> event_type ty \<and> truthy_string (saveUrl (doc ! f)))"
    using assms(2) by blast
  show "timers_of f (step a s) = []"
  proof (cases a)
    case (Dispatch g ty)
    show ?thesis
      unfolding Dispatch step.simps timers_of_dispatch [OF assms(1)] using c assms(3) by simp
  next
    case (Advance d)
    then show ?thesis using assms(3) by (simp add: timers_of_advance [OF w])
  qed (simp_all add: timers_of_def [of f] other_frame settle_frame [OF w] assms(3) [unfolded timers_of_def])
  show "calls_of f (step a s) = calls_of f s"
  proof (cases a)
    case (Dispatch g ty)
    then show ?thesis by (simp add: calls_of_def dispatch_frame [OF assms(1)])
  next
    case (Advance d)
    then show ?thesis using assms(3) by (simp add: calls_of_advance [OF w])
  qed (simp_all add: calls_of_def other_frame settle_frame [OF w])
qed

lemma never_run:
  assumes "reach doc s" "\<not> (marked doc f \<and> truthy_string (saveUrl (doc ! f)))" "timers_of f s = []"
  shows "timers_of f (run tr s) = [] \<and> calls_of f (run tr s) = calls_of f s"
  using assms(1,3)
proof (induction tr arbitrary: s)
  case Nil
  then show ?case by (simp add: run_Nil)
next
  case (Cons a tr)
  note st = never_step [OF Cons.prems(1) assms(2) Cons.prems(2), of a]
  show ?case using Cons.IH [OF reach_step [OF Cons.prems(1)] st(1)] st(2) by (simp add: run_Cons)
qed

lemma never_saves:
  assumes "\<not> (marked doc f \<and> truthy_string (saveUrl (doc ! f)))"
  shows "timers_of f (run tr (init doc)) = []" "calls_of f (run tr (init doc)) = []"
proof -
  have t: "timers_of f (init doc) = []" by (simp add: timers_of_def init_fields)
  have c: "calls_of f (init doc) = []" by (simp add: calls_of_def init_fields)
  from never_run [OF reach_init assms t, of tr] c
  show "timers_of f (run tr (init doc)) = []" "calls_of f (run tr (init doc)) = []" by simp_all
qed

lemma dispatch_inert:
  assumes "reach doc s" "\<not> (marked doc f \<and> truthy_string (saveUrl (doc ! f)))"
  shows "step (Dispatch f ty) s = s"
  using assms(2) by (auto simp: dispatch_eq [OF assms(1)])

lemma attrs_step:
  assumes "reach doc s" "g < length (forms s)"
  shows "saveUrl (forms (step a s) ! g) = saveUrl (forms s ! g)"
    "classList (forms (step a s) ! g) = classList (forms s ! g)"
    "g < length (forms (step a s))"
proof -
  have w: "wf s" using assms(1) by (rule reach_wf)
  have "saveUrl (forms (step a s) ! g) = saveUrl (forms s ! g) \<and>
    classList (forms (step a s) ! g) = classList (forms s ! g) \<and> g < length (forms (step a s))"
  proof (cases a)
    case (Dispatch f ty)
    then show ?thesis using assms(2) by (simp add: dispatch_frame [OF assms(1)])
  next
    case (Edit f fs)
    then show ?thesis using assms(2) by (simp add: edit_def nth_list_update)
  next
    case (AddForm fm)
    then show ?thesis using assms(2) by (simp add: addForm_def nth_append)
  next
    case (Advance d)
    then show ?thesis using assms(2) by (simp add: advance_frame [OF w])
  next
    case (Settle i oc)
    then show ?thesis using assms(2) by (simp add: settle_frame [OF w])
  qed
  then show "saveUrl (forms (step a s) ! g) = saveUrl (forms s ! g)"
    "classList (forms (step a s) ! g) = classList (forms s ! g)"
    "g < length (forms (step a s))" by simp_all
qed

lemma attrs_run:
  assumes "reach doc s" "g < length (forms s)"
  shows "saveUrl (forms (run tr s) ! g) = saveUrl (forms s ! g) \<and>
    classList (forms (run tr s) ! g) = classList (forms s ! g) \<and> g < length (forms (run tr s))"
  using assms
proof (induction tr arbitrary: s)
  case Nil
  then show ?case by (simp add: run_Nil)
next
  case (Cons a tr)
  note st = attrs_step [OF Cons.prems, of a]
  show ?case using Cons.IH [OF reach_step [OF Cons.prems(1)] st(3)] st(1,2) by (simp add: run_Cons)
qed

text \<open>
  C3. A form of the document whose \<open>dataset.saveUrl\<close> is undefined (no \<open>data-save-url\<close>
  attribute) is inert in every state that a run reaches: an event of any type on it
  leaves the whole state as it is, it has no timer, and no call is ever made for it.
\<close>

theorem no_endpoint_inert:
  assumes "f < length doc" and "saveUrl (doc ! f) = None"
  shows "step (Dispatch f ty) (run tr (init doc)) = run tr (init doc) \<and>
     timers_of f (run tr (init doc)) = [] \<and> calls_of f (run tr (init doc)) = []"
proof -
  have n: "\<not> (marked doc f \<and> truthy_string (saveUrl (doc ! f)))"
    using assms(2) by (simp add: truthy_string_def)
  show ?thesis
    using dispatch_inert [OF reach_trace n] never_saves [OF n] by simp
qed

theorem no_endpoint_inert_witness:
  "0 < length [\<lparr>classList = [''autosave-form''], saveUrl = None, controls = [(''q'', ''a'')]\<rparr>] \<and>
   saveUrl ([\<lparr>classList = [''autosave-form''], saveUrl = None, controls = [(''q'', ''a'')]\<rparr>] ! 0) = None \<and>
   step (Dispatch 0 ''input'')
     (run [Dispatch 0 ''input'', Advance 800, Dispatch 0 ''change'']
       (init [\<lparr>classList = [''autosave-form''], saveUrl = None, controls = [(''q'', ''a'')]\<rparr>])) =
     run [Dispatch 0 ''input'', Advance 800, Dispatch 0 ''change'']
       (init [\<lparr>classList = [''autosave-form''], saveUrl = None, controls = [(''q'', ''a'')]\<rparr>]) \<and>
   timers_of 0
     (run [Dispatch 0 ''input'', Advance 800, Dispatch 0 ''change'']
       (init [\<lparr>classList = [''autosave-form''], saveUrl = None, controls = [(''q'', ''a'')]\<rparr>])) = [] \<and>
   calls_of 0
     (run [Dispatch 0 ''input'', Advance 800, Dispatch 0 ''change'']
       (init [\<lparr>classList = [''autosave-form''], saveUrl = None, controls = [(''q'', ''a'')]\<rparr>])) = []"
proof -
  let ?doc = "[\<lparr>classList = [''autosave-form''], saveUrl = None, controls = [(''q'', ''a'')]\<rparr>]"
  have h1: "0 < length ?doc" by simp
  have h2: "saveUrl (?doc ! 0) = None" by simp
  show ?thesis
    using h1 h2 no_endpoint_inert [OF h1 h2, of "''input''" "[Dispatch 0 ''input'', Advance 800, Dispatch 0 ''change'']"]
    by blast
qed

text \<open>
  C9. The listeners are those that the one query at load time registered: in every
  reachable state they are the \<open>input\<close> and \<open>change\<close> listeners of the forms that carried
  the class in the document the script was loaded with. A form \<open>fm\<close> added later, at any
  moment of a run, takes the next position, keeps its endpoint and its class, and is never
  saved: there is no listener on it, an event on it changes nothing, it has no timer and
  no call is made for it, whatever the rest of the run does.
\<close>

theorem late_form_not_autosaved:
  "((g, ty) \<in> set (listeners (run tr (init doc)))) = (marked doc g \<and> event_type ty) \<and>
   forms (run (pre @ [AddForm fm]) (init doc)) ! length (forms (run pre (init doc))) = fm \<and>
   saveUrl (forms (run (pre @ AddForm fm # post) (init doc)) ! length (forms (run pre (init doc)))) =
     saveUrl fm \<and>
   classList (forms (run (pre @ AddForm fm # post) (init doc)) ! length (forms (run pre (init doc)))) =
     classList fm \<and>
   \<not> listening (run (pre @ AddForm fm # post) (init doc)) (length (forms (run pre (init doc)))) \<and>
   step (Dispatch (length (forms (run pre (init doc)))) ty') (run (pre @ AddForm fm # post) (init doc)) =
     run (pre @ AddForm fm # post) (init doc) \<and>
   timers_of (length (forms (run pre (init doc)))) (run (pre @ AddForm fm # post) (init doc)) = [] \<and>
   calls_of (length (forms (run pre (init doc)))) (run (pre @ AddForm fm # post) (init doc)) = []"
proof -
  let ?s = "run pre (init doc)"
  let ?n = "length (forms ?s)"
  let ?s1 = "addForm fm ?s"
  let ?t = "run (pre @ AddForm fm # post) (init doc)"
  have r: "reach doc ?s" by (rule reach_trace)
  have r1: "reach doc ?s1" using reach_step [OF r, of "AddForm fm"] by simp
  have rt: "reach doc ?t" by (rule reach_trace)
  have "length doc \<le> ?n" using r by (simp add: reach_def)
  then have nm: "\<not> marked doc ?n" by (simp add: marked_def)
  then have n: "\<not> (marked doc ?n \<and> truthy_string (saveUrl (doc ! ?n)))" by simp
  have l: "?n < length (forms ?s1)" by (simp add: addForm_def)
  have a: "forms ?s1 ! ?n = fm" by (simp add: addForm_def)
  have t: "?t = run post ?s1" by (simp add: run_append run_Cons)
  have 1: "((g, ty) \<in> set (listeners (run tr (init doc)))) = (marked doc g \<and> event_type ty)"
    by (rule reach_listener [OF reach_trace])
  have 2: "forms (run (pre @ [AddForm fm]) (init doc)) ! ?n = fm"
    using a by (simp add: run_append run_Cons run_Nil)
  have 3: "saveUrl (forms ?t ! ?n) = saveUrl fm" "classList (forms ?t ! ?n) = classList fm"
    unfolding t using attrs_run [OF r1 l, of post] a by simp_all
  have 4: "\<not> listening ?t ?n" using nm by (simp add: reach_listening [OF rt])
  have 5: "step (Dispatch ?n ty') ?t = ?t" using rt n by (rule dispatch_inert)
  show ?thesis using 1 2 3 4 5 never_saves [OF n] by blast
qed

lemma strip_fields:
  "now (strip f s) = now s" "timers (strip f s) = timers s" "calls (strip f s) = calls s"
  "listeners (strip f s) = listeners s" "timeoutId (strip f s) = timeoutId s"
  "next_handle (strip f s) = next_handle s" "settled (strip f s) = settled s"
  "unhandled (strip f s) = unhandled s" "length (forms (strip f s)) = length (forms s)"
  "g \<noteq> f \<Longrightarrow> forms (strip f s) ! g = forms s ! g"
  "f < length (forms s) \<Longrightarrow> saveUrl (forms (strip f s) ! f) = None"
  by (simp_all add: strip_def without_endpoint_def)

lemma strip_scheduleSave:
  assumes "f < length (forms s)" "\<not> truthy_string (saveUrl (forms s ! f))"
  shows "scheduleSave g (strip f s) = strip f (scheduleSave g s)"
proof (cases "g = f")
  case True
  have "scheduleSave f s = s" using assms(2) by (simp add: scheduleSave_idle)
  moreover have "scheduleSave f (strip f s) = strip f s"
    using assms(1) by (simp add: scheduleSave_idle strip_fields truthy_string_def)
  ultimately show ?thesis using True by simp
next
  case False
  show ?thesis
  proof (cases "g < length (forms s) \<and> truthy_string (saveUrl (forms s ! g))")
    case n: False
    then have "scheduleSave g s = s" by (simp add: scheduleSave_idle)
    moreover have "scheduleSave g (strip f s) = strip f s"
      using n False by (simp add: scheduleSave_idle strip_fields)
    ultimately show ?thesis by simp
  next
    case y: True
    then have y': "g < length (forms (strip f s))" "truthy_string (saveUrl (forms (strip f s) ! g))"
      using False by (simp_all add: strip_fields)
    have c: "cancelled g (strip f s) = cancelled g s" by (simp add: cancelled_def strip_fields split: timeout_var.splits)
    show ?thesis
      unfolding scheduleSave_eq [OF y'] using y
      by (intro state.equality) (simp_all add: scheduleSave_eq c strip_fields, simp_all add: strip_def)
  qed
qed

lemma strip_dispatch:
  assumes "wf s" "f < length (forms s)" "\<not> truthy_string (saveUrl (forms s ! f))"
  shows "dispatchEvent g ty (strip f s) = strip f (dispatchEvent g ty s)"
proof -
  have d: "distinct (listeners s)" using assms(1) by (simp add: wf_def inv_listen_def)
  then have d': "distinct (listeners (strip f s))" by (simp add: strip_fields)
  show ?thesis
    unfolding dispatchEvent_eq [OF d] dispatchEvent_eq [OF d']
    by (simp add: strip_fields strip_scheduleSave [OF assms(2,3)])
qed

lemma strip_edit:
  assumes "f < length (forms s)"
  shows "edit g fs (strip f s) = strip f (edit g fs s)"
proof (cases "g < length (forms s)")
  case False
  then show ?thesis by (simp add: edit_def strip_fields)
next
  case True
  show ?thesis
  proof (cases "g = f")
    case e: True
    have sw: "(forms s ! f)\<lparr>saveUrl := None, controls := fs\<rparr> = (forms s ! f)\<lparr>controls := fs, saveUrl := None\<rparr>"
      by (cases "forms s ! f") simp
    have "edit f fs (strip f s) = s\<lparr>forms := (forms s)[f := (forms s ! f)\<lparr>saveUrl := None, controls := fs\<rparr>]\<rparr>"
      using True e by (simp add: edit_def strip_def without_endpoint_def)
    moreover have "strip f (edit f fs s) = s\<lparr>forms := (forms s)[f := (forms s ! f)\<lparr>controls := fs, saveUrl := None\<rparr>]\<rparr>"
      using True e by (simp add: edit_def strip_def without_endpoint_def)
    ultimately show ?thesis unfolding e sw by simp
  next
    case False
    then show ?thesis using True assms
      by (simp add: edit_def strip_def without_endpoint_def list_update_swap [of f g])
  qed
qed

lemma strip_addForm:
  assumes "f < length (forms s)"
  shows "addForm fm (strip f s) = strip f (addForm fm s)"
  using assms by (simp add: addForm_def strip_def without_endpoint_def list_update_append1 nth_append)

lemma strip_fire:
  assumes "t_callback tm \<noteq> SaveCb f"
  shows "fire tm (strip f s) = strip f (fire tm s)"
proof (cases "t_callback tm")
  case EmptyCb
  then show ?thesis by (simp add: fire_def run_callback_def strip_def)
next
  case (SaveCb g)
  then have "g \<noteq> f" using assms by simp
  then have "forms (strip f s) ! g = forms s ! g" by (simp add: strip_fields)
  then show ?thesis using SaveCb
    by (simp add: fire_def run_callback_def fetch_def strip_def without_endpoint_def)
qed

lemma strip_fold_fire:
  "\<forall>tm \<in> set tms. t_callback tm \<noteq> SaveCb f \<Longrightarrow>
   fold fire tms (strip f s) = strip f (fold fire tms s)"
  by (induction tms arbitrary: s) (simp_all add: strip_fire)

lemma strip_advance:
  assumes "timers_of f s = []"
  shows "advance d (strip f s) = strip f (advance d s)"
proof -
  let ?due = "sort_key t_due (filter (\<lambda>tm. t_due tm \<le> now s + d) (timers s))"
  let ?s1 = "s\<lparr>timers := filter (\<lambda>tm. \<not> t_due tm \<le> now s + d) (timers s)\<rparr>"
  have "\<forall>tm \<in> set (timers s). t_callback tm \<noteq> SaveCb f"
    using assms by (simp add: timers_of_def filter_empty_conv)
  then have a: "\<forall>tm \<in> set ?due. t_callback tm \<noteq> SaveCb f" by simp
  have b: "(strip f s)\<lparr>timers := filter (\<lambda>tm. \<not> t_due tm \<le> now s + d) (timers s)\<rparr> = strip f ?s1"
    by (simp add: strip_def)
  have "advance d (strip f s) = (fold fire ?due (strip f ?s1))\<lparr>now := now s + d\<rparr>"
    by (simp add: advance_def Let_def strip_fields b)
  also have "\<dots> = strip f ((fold fire ?due ?s1)\<lparr>now := now s + d\<rparr>)"
    unfolding strip_fold_fire [OF a] by (simp add: strip_def)
  finally show ?thesis by (simp add: advance_def Let_def)
qed

lemma strip_settle:
  assumes "wf s"
  shows "settle i oc (strip f s) = strip f (settle i oc s)"
proof (cases "i < length (calls s) \<and> i \<notin> fst ` set (settled s)")
  case False
  then show ?thesis by (auto simp: settle_def strip_fields)
next
  case True
  then have "calls s ! i \<in> set (calls s)" by simp
  from wf_call(7,8) [OF assms this] True show ?thesis
    by (cases oc) (simp_all add: settle_def run_callback_def strip_fields, simp_all add: strip_def)
qed

lemma strip_step:
  assumes "reach doc s" "f < length doc" "\<not> truthy_string (saveUrl (doc ! f))"
  shows "step a (strip f s) = strip f (step a s)"
proof -
  have w: "wf s" using assms(1) by (rule reach_wf)
  have l: "f < length (forms s)" using assms(1,2) by (rule reach_length)
  have u: "\<not> truthy_string (saveUrl (forms s ! f))"
    using reach_saveUrl [OF assms(1,2)] assms(3) by simp
  have t: "timers_of f s = []"
  proof (rule ccontr)
    assume "timers_of f s \<noteq> []"
    then obtain tm where m: "tm \<in> set (timers s)" and c: "t_callback tm = SaveCb f"
      by (auto simp: timers_of_def filter_empty_conv)
    from wf_timer(1) [OF w m] c have "the_form tm = f" by simp
    with wf_timer(6) [OF w m] u show False by simp
  qed
  show ?thesis
    by (cases a)
      (simp_all add: strip_dispatch [OF w l u] strip_edit [OF l] strip_addForm [OF l]
        strip_advance [OF t] strip_settle [OF w])
qed

lemma strip_run:
  assumes "reach doc s" "f < length doc" "\<not> truthy_string (saveUrl (doc ! f))"
  shows "run tr (strip f s) = strip f (run tr s)"
  using assms(1)
proof (induction tr arbitrary: s)
  case Nil
  then show ?case by (simp add: run_Nil)
next
  case (Cons a tr)
  show ?case
    using Cons.IH [OF reach_step [OF Cons.prems]] strip_step [OF Cons.prems assms(2,3)]
    by (simp add: run_Cons)
qed

lemma strip_attach: "attach g (strip f s) = strip f (attach g s)"
  by (simp add: attach_def strip_def)

lemma strip_fold_attach: "fold attach fs (strip f s) = strip f (fold attach fs s)"
  by (induction fs arbitrary: s) (simp_all add: strip_attach)

lemma strip_init: "init (without_endpoint f doc) = strip f (init doc)"
proof -
  have "\<And>i. i < length doc \<Longrightarrow> classList (without_endpoint f doc ! i) = classList (doc ! i)"
  proof -
    fix i assume "i < length doc"
    then show "classList (without_endpoint f doc ! i) = classList (doc ! i)"
      by (cases "i = f") (simp_all add: without_endpoint_def)
  qed
  then have q: "querySelectorAll (without_endpoint f doc) ''autosave-form'' =
      querySelectorAll doc ''autosave-form''"
    unfolding querySelectorAll_def by (auto simp: without_endpoint_def intro!: filter_cong)
  have "loaded (without_endpoint f doc) = strip f (loaded doc)"
    by (simp add: loaded_def strip_def)
  then show ?thesis by (simp add: init_def q strip_fold_attach)
qed

text \<open>
  C8. A form whose \<open>data-save-url\<close> attribute is present but empty is treated exactly as if
  the attribute were absent: a run from the document behaves, action by action, as the
  same run from the document in which that form has no such attribute (the two states
  differ in that attribute only), and the form is inert: an event on it changes nothing,
  it has no timer, and no call is ever made for it.
\<close>

theorem empty_endpoint_as_absent:
  assumes "f < length doc" and "saveUrl (doc ! f) = Some ''''"
  shows "run tr (init (without_endpoint f doc)) = strip f (run tr (init doc)) \<and>
     step (Dispatch f ty) (run tr (init doc)) = run tr (init doc) \<and>
     timers_of f (run tr (init doc)) = [] \<and> calls_of f (run tr (init doc)) = []"
proof -
  have u: "\<not> truthy_string (saveUrl (doc ! f))" using assms(2) by (simp add: truthy_string_def)
  then have n: "\<not> (marked doc f \<and> truthy_string (saveUrl (doc ! f)))" by simp
  have "run tr (init (without_endpoint f doc)) = strip f (run tr (init doc))"
    unfolding strip_init by (rule strip_run [OF reach_init assms(1) u])
  then show ?thesis
    using dispatch_inert [OF reach_trace n] never_saves [OF n] by simp
qed

theorem empty_endpoint_as_absent_witness:
  "0 < length [\<lparr>classList = [''autosave-form''], saveUrl = Some '''', controls = [(''q'', ''a'')]\<rparr>] \<and>
   saveUrl ([\<lparr>classList = [''autosave-form''], saveUrl = Some '''', controls = [(''q'', ''a'')]\<rparr>] ! 0) = Some '''' \<and>
   run [Dispatch 0 ''input'', Advance 800]
     (init (without_endpoint 0 [\<lparr>classList = [''autosave-form''], saveUrl = Some '''', controls = [(''q'', ''a'')]\<rparr>])) =
     strip 0 (run [Dispatch 0 ''input'', Advance 800]
       (init [\<lparr>classList = [''autosave-form''], saveUrl = Some '''', controls = [(''q'', ''a'')]\<rparr>])) \<and>
   step (Dispatch 0 ''change'')
     (run [Dispatch 0 ''input'', Advance 800]
       (init [\<lparr>classList = [''autosave-form''], saveUrl = Some '''', controls = [(''q'', ''a'')]\<rparr>])) =
     run [Dispatch 0 ''input'', Advance 800]
       (init [\<lparr>classList = [''autosave-form''], saveUrl = Some '''', controls = [(''q'', ''a'')]\<rparr>]) \<and>
   timers_of 0
     (run [Dispatch 0 ''input'', Advance 800]
       (init [\<lparr>classList = [''autosave-form''], saveUrl = Some '''', controls = [(''q'', ''a'')]\<rparr>])) = [] \<and>
   calls_of 0
     (run [Dispatch 0 ''input'', Advance 800]
       (init [\<lparr>classList = [''autosave-form''], saveUrl = Some '''', controls = [(''q'', ''a'')]\<rparr>])) = []"
proof -
  let ?doc = "[\<lparr>classList = [''autosave-form''], saveUrl = Some '''', controls = [(''q'', ''a'')]\<rparr>]"
  have h1: "0 < length ?doc" by simp
  have h2: "saveUrl (?doc ! 0) = Some ''''" by simp
  show ?thesis
    using h1 h2 empty_endpoint_as_absent [OF h1 h2, of "[Dispatch 0 ''input'', Advance 800]" "''change''"]
    by blast
qed

lemma handle_fresh:
  assumes "wf s" "tm \<in> set (timers s)"
  shows "t_handle tm < next_handle s"
proof -
  have "timeoutId s (the_form tm) = Handle (t_handle tm)" using assms by (rule wf_timer(7))
  moreover have "\<And>g h. timeoutId s g = Handle h \<Longrightarrow> h < next_handle s"
    using assms(1) unfolding wf_def inv_handles_def by blast
  ultimately show ?thesis by blast
qed

text \<open>
  C4. In every state that a run reaches, a form has at most one active timer, and no two
  active timers share a handle. An \<open>input\<close> or \<open>change\<close> event on a saving form leaves
  that form with exactly one timer, the new one, due 800 ms later, under a handle that no
  timer active before the event carried: the timer that was pending, if any, is gone.
\<close>

theorem one_pending_timer_per_form:
  "length (timers_of g (run tr (init doc))) \<le> 1 \<and>
   distinct (map t_handle (timers (run tr (init doc)))) \<and>
   (marked doc f \<and> truthy_string (saveUrl (doc ! f)) \<and> event_type ty \<longrightarrow>
      timers_of f (step (Dispatch f ty) (run tr (init doc))) =
        [\<lparr>t_handle = next_handle (run tr (init doc)), t_due = now (run tr (init doc)) + 800,
          t_callback = SaveCb f\<rparr>] \<and>
      next_handle (run tr (init doc)) \<notin> t_handle ` set (timers (run tr (init doc))))"
proof -
  let ?s = "run tr (init doc)"
  have r: "reach doc ?s" by (rule reach_trace)
  have w: "wf ?s" using r by (rule reach_wf)
  have 1: "length (timers_of g ?s) \<le> 1" using w by (rule one_timer)
  have 2: "distinct (map t_handle (timers ?s))" using w by (simp add: wf_def inv_timers_def)
  have 3: "next_handle ?s \<notin> t_handle ` set (timers ?s)" using handle_fresh [OF w] by fastforce
  have 4: "marked doc f \<and> truthy_string (saveUrl (doc ! f)) \<and> event_type ty \<Longrightarrow>
      timers_of f (step (Dispatch f ty) ?s) =
        [\<lparr>t_handle = next_handle ?s, t_due = now ?s + 800, t_callback = SaveCb f\<rparr>]"
    by (simp add: timers_of_dispatch [OF r])
  show ?thesis using 1 2 3 4 by blast
qed

theorem one_pending_timer_per_form_witness:
  "marked [\<lparr>classList = [''autosave-form''], saveUrl = Some ''/save/42'', controls = []\<rparr>] 0 \<and>
   truthy_string (saveUrl ([\<lparr>classList = [''autosave-form''], saveUrl = Some ''/save/42'', controls = []\<rparr>] ! 0)) \<and>
   event_type ''change'' \<and>
   timers (run [Dispatch 0 ''input'', Advance 100]
     (init [\<lparr>classList = [''autosave-form''], saveUrl = Some ''/save/42'', controls = []\<rparr>])) =
     [\<lparr>t_handle = 1, t_due = 800, t_callback = SaveCb 0\<rparr>] \<and>
   timers_of 0 (step (Dispatch 0 ''change'') (run [Dispatch 0 ''input'', Advance 100]
     (init [\<lparr>classList = [''autosave-form''], saveUrl = Some ''/save/42'', controls = []\<rparr>]))) =
     [\<lparr>t_handle = 2, t_due = 900, t_callback = SaveCb 0\<rparr>]"
proof -
  let ?doc = "[\<lparr>classList = [''autosave-form''], saveUrl = Some ''/save/42'', controls = []\<rparr>]"
  let ?tr = "[Dispatch 0 ''input'', Advance 100]"
  have h1: "marked ?doc 0" by (simp add: marked_def)
  have h2: "truthy_string (saveUrl (?doc ! 0))" by (simp add: truthy_string_def)
  have h3: "event_type ''change''" by (simp add: event_type_def)
  note defs = run_def init_def loaded_def querySelectorAll_def attach_def dispatchEvent_def
    scheduleSave_def truthy_string_def truthy_var_def setTimeout_def clearTimeout_def
    advance_def fire_def run_callback_def fetch_def FormData_def
  have e: "timers (run ?tr (init ?doc)) = [\<lparr>t_handle = 1, t_due = 800, t_callback = SaveCb 0\<rparr>]"
    "next_handle (run ?tr (init ?doc)) = 2" "now (run ?tr (init ?doc)) = 100"
    by (simp_all add: defs)
  show ?thesis
    using h1 h2 h3 e(1) one_pending_timer_per_form [of 0 ?tr ?doc 0 "''change''"]
    unfolding e(2,3) by simp
qed

lemma reach_dispatch: "reach doc s \<Longrightarrow> reach doc (dispatchEvent f ty s)"
  using reach_step [of doc s "Dispatch f ty"] by simp

lemma single_burst:
  assumes "reach doc s" "marked doc f" "truthy_string (saveUrl (doc ! f))" "event_type ty" "800 \<le> D"
  shows "calls_of f (run [Dispatch f ty, Advance D] s) =
     calls_of f s @ [save_request (forms s) f (now s + 800)]"
    "timers_of f (run [Dispatch f ty, Advance D] s) = []"
proof -
  have q: "quiet f [(ty, [])]" using assms(4) by (simp add: quiet_def idle_def)
  have ne: "[(ty, [])] \<noteq> ([] :: (string \<times> action list) list)" by simp
  have d: "800 \<le> elapsed (snd (last [(ty, [])])) + D" using assms(5) by simp
  have f: "forms (run (burst f [(ty, [])]) s) = forms s"
    by (simp add: run_Cons run_Nil dispatch_frame [OF assms(1)])
  from burst_fires [OF assms(1,2,3) q ne d]
  show "calls_of f (run [Dispatch f ty, Advance D] s) =
     calls_of f s @ [save_request (forms s) f (now s + 800)]"
    "timers_of f (run [Dispatch f ty, Advance D] s) = []"
    unfolding f by (simp_all add: span_single)
qed

text \<open>
  C10. After the timer of a saving form has fired, the variable \<open>timeoutId\<close> of the form
  still holds the handle of that timer (it is not reset to \<open>null\<close>), the form has no
  active timer, and \<open>clearTimeout\<close> on that handle changes nothing. The next event
  schedules a fresh timer all the same, and the quiet period after it yields its own
  call: firing is not one-shot.
\<close>

theorem expired_handle_is_kept:
  assumes "marked doc f" and "truthy_string (saveUrl (doc ! f))"
    and "event_type ty" and "event_type ty'" and "800 \<le> D" and "800 \<le> D'"
  shows "timeoutId (run [Dispatch f ty, Advance D] (run pre (init doc))) f =
       Handle (next_handle (run pre (init doc))) \<and>
     timers_of f (run [Dispatch f ty, Advance D] (run pre (init doc))) = [] \<and>
     clearTimeout (next_handle (run pre (init doc)))
         (run [Dispatch f ty, Advance D] (run pre (init doc))) =
       run [Dispatch f ty, Advance D] (run pre (init doc)) \<and>
     calls_of f (run [Dispatch f ty, Advance D] (run pre (init doc))) =
       calls_of f (run pre (init doc)) @
         [save_request (forms (run pre (init doc))) f (now (run pre (init doc)) + 800)] \<and>
     calls_of f (run [Dispatch f ty', Advance D'] (run [Dispatch f ty, Advance D] (run pre (init doc)))) =
       calls_of f (run [Dispatch f ty, Advance D] (run pre (init doc))) @
         [save_request (forms (run [Dispatch f ty, Advance D] (run pre (init doc)))) f
            (now (run [Dispatch f ty, Advance D] (run pre (init doc))) + 800)]"
proof -
  let ?s = "run pre (init doc)"
  let ?sd = "dispatchEvent f ty ?s"
  let ?sf = "run [Dispatch f ty, Advance D] ?s"
  have r: "reach doc ?s" by (rule reach_trace)
  have r0: "reach doc ?sd" using r by (rule reach_dispatch)
  have w0: "wf ?sd" using r0 by (rule reach_wf)
  have r1: "reach doc ?sf" using r by (rule reach_run)
  have w1: "wf ?sf" using r1 by (rule reach_wf)
  have s1: "?sf = advance D ?sd" by (simp add: run_Cons run_Nil)
  have id0: "timeoutId ?sd f = Handle (next_handle ?s)"
    using assms(1,2,3) by (simp add: dispatch_eq [OF r])
  have 1: "timeoutId ?sf f = Handle (next_handle ?s)"
    unfolding s1 using id0 by (simp add: advance_frame [OF w0])
  note b = single_burst [OF r assms(1,2,3,5)]
  have "\<forall>tm \<in> set (timers ?sf). t_handle tm \<noteq> next_handle ?s"
  proof (intro ballI notI)
    fix tm assume m: "tm \<in> set (timers ?sf)" and h: "t_handle tm = next_handle ?s"
    have "timeoutId ?sf (the_form tm) = Handle (t_handle tm)" using w1 m by (rule wf_timer(7))
    moreover have "\<And>g g' h. timeoutId ?sf g = Handle h \<Longrightarrow> timeoutId ?sf g' = Handle h \<Longrightarrow> g = g'"
      using w1 unfolding wf_def inv_handles_def by blast
    ultimately have "the_form tm = f" using 1 h by simp
    with wf_timer(1) [OF w1 m] have "tm \<in> set (timers_of f ?sf)" using m by (simp add: timers_of_def)
    with b(2) show False by simp
  qed
  then have 3: "clearTimeout (next_handle ?s) ?sf = ?sf"
    by (simp add: clearTimeout_def filter_id_conv)
  show ?thesis
    using 1 3 b single_burst(1) [OF r1 assms(1,2,4,6)] by simp
qed

theorem expired_handle_is_kept_witness:
  "marked [\<lparr>classList = [''autosave-form''], saveUrl = Some ''/save/42'', controls = []\<rparr>] 0 \<and>
   truthy_string (saveUrl ([\<lparr>classList = [''autosave-form''], saveUrl = Some ''/save/42'', controls = []\<rparr>] ! 0)) \<and>
   event_type ''input'' \<and> event_type ''change'' \<and> (800::nat) \<le> 800 \<and> (800::nat) \<le> 1000 \<and>
   timeoutId (run [Dispatch 0 ''input'', Advance 800]
     (run [] (init [\<lparr>classList = [''autosave-form''], saveUrl = Some ''/save/42'', controls = []\<rparr>]))) 0 =
     Handle 1 \<and>
   map req_time (calls_of 0 (run [Dispatch 0 ''change'', Advance 1000] (run [Dispatch 0 ''input'', Advance 800]
     (run [] (init [\<lparr>classList = [''autosave-form''], saveUrl = Some ''/save/42'', controls = []\<rparr>]))))) =
     [800, 1600]"
proof -
  let ?doc = "[\<lparr>classList = [''autosave-form''], saveUrl = Some ''/save/42'', controls = []\<rparr>]"
  have h1: "marked ?doc 0" by (simp add: marked_def)
  have h2: "truthy_string (saveUrl (?doc ! 0))" by (simp add: truthy_string_def)
  have h3: "event_type ''input''" and h4: "event_type ''change''" by (simp_all add: event_type_def)
  have h5: "(800::nat) \<le> 800" and h6: "(800::nat) \<le> 1000" by simp_all
  note defs = run_def init_def loaded_def querySelectorAll_def attach_def dispatchEvent_def
    scheduleSave_def truthy_string_def truthy_var_def setTimeout_def clearTimeout_def
    advance_def fire_def run_callback_def fetch_def FormData_def calls_of_def
  have e: "next_handle (run [] (init ?doc)) = 1" "calls_of 0 (run [] (init ?doc)) = []"
    "now (run [] (init ?doc)) = 0"
    "now (run [Dispatch 0 ''input'', Advance 800] (run [] (init ?doc))) = 800"
    by (simp_all add: defs)
  show ?thesis
    using h1 h2 h3 h4 expired_handle_is_kept [OF h1 h2 h3 h4 h5 h6, of "[]"]
    unfolding e by (simp add: save_request_def)
qed

text \<open>
  C5. A rejected promise never becomes an unhandled rejection: in every state that a run
  reaches the log of unhandled rejections is empty. The rejection of any call changes
  nothing but the log of settled promises: no call is added (no retry), no timer, no
  form is touched (no feedback), the closure variables are as before. And the form saves
  again afterwards: an event on a saving form after the failure, followed by 800 ms,
  yields its call as usual.
\<close>

theorem network_failure_suppressed:
  "unhandled (run tr (init doc)) = [] \<and>
   step (Settle i (Rejected why)) (run tr (init doc)) =
     (run tr (init doc))\<lparr>settled := settled (step (Settle i (Rejected why)) (run tr (init doc)))\<rparr> \<and>
   (marked doc f \<and> truthy_string (saveUrl (doc ! f)) \<and> event_type ty \<and> 800 \<le> D \<longrightarrow>
      calls_of f (run [Settle i (Rejected why), Dispatch f ty, Advance D] (run tr (init doc))) =
        calls_of f (run tr (init doc)) @
          [save_request (forms (run tr (init doc))) f (now (run tr (init doc)) + 800)])"
proof -
  let ?s = "run tr (init doc)"
  let ?t = "settle i (Rejected why) ?s"
  have r: "reach doc ?s" by (rule reach_trace)
  have w: "wf ?s" using r by (rule reach_wf)
  have rt: "reach doc ?t" using reach_step [OF r, of "Settle i (Rejected why)"] by simp
  have 1: "unhandled ?s = []" using w by (simp add: wf_def inv_calls_def)
  have 2: "step (Settle i (Rejected why)) ?s = ?s\<lparr>settled := settled (step (Settle i (Rejected why)) ?s)\<rparr>"
    by (simp add: settle_eq [OF w])
  have 3: "calls_of f (run [Settle i (Rejected why), Dispatch f ty, Advance D] ?s) =
        calls_of f ?s @ [save_request (forms ?s) f (now ?s + 800)]"
    if h: "marked doc f \<and> truthy_string (saveUrl (doc ! f)) \<and> event_type ty \<and> 800 \<le> D"
  proof -
    have e: "run [Settle i (Rejected why), Dispatch f ty, Advance D] ?s = run [Dispatch f ty, Advance D] ?t"
      by (simp add: run_Cons)
    from h have "calls_of f (run [Dispatch f ty, Advance D] ?t) =
        calls_of f ?t @ [save_request (forms ?t) f (now ?t + 800)]"
      using single_burst(1) [OF rt] by blast
    then show ?thesis unfolding e by (simp add: calls_of_def settle_frame [OF w])
  qed
  show ?thesis using 1 2 3 by blast
qed

theorem network_failure_suppressed_witness:
  "marked [\<lparr>classList = [''autosave-form''], saveUrl = Some ''/save/42'', controls = []\<rparr>] 0 \<and>
   truthy_string (saveUrl ([\<lparr>classList = [''autosave-form''], saveUrl = Some ''/save/42'', controls = []\<rparr>] ! 0)) \<and>
   event_type ''input'' \<and> (800::nat) \<le> 800 \<and>
   settled (step (Settle 0 (Rejected ''offline'')) (run [Dispatch 0 ''input'', Advance 800]
     (init [\<lparr>classList = [''autosave-form''], saveUrl = Some ''/save/42'', controls = []\<rparr>]))) =
     [(0, Rejected ''offline'')] \<and>
   unhandled (run [Dispatch 0 ''input'', Advance 800, Settle 0 (Rejected ''offline'')]
     (init [\<lparr>classList = [''autosave-form''], saveUrl = Some ''/save/42'', controls = []\<rparr>])) = [] \<and>
   map req_time (calls_of 0 (run [Settle 0 (Rejected ''offline''), Dispatch 0 ''input'', Advance 800]
     (run [Dispatch 0 ''input'', Advance 800]
       (init [\<lparr>classList = [''autosave-form''], saveUrl = Some ''/save/42'', controls = []\<rparr>])))) =
     [800, 1600]"
proof -
  let ?doc = "[\<lparr>classList = [''autosave-form''], saveUrl = Some ''/save/42'', controls = []\<rparr>]"
  let ?tr = "[Dispatch 0 ''input'', Advance 800]"
  have h1: "marked ?doc 0" by (simp add: marked_def)
  have h2: "truthy_string (saveUrl (?doc ! 0))" by (simp add: truthy_string_def)
  have h3: "event_type ''input''" by (simp add: event_type_def)
  have h4: "(800::nat) \<le> 800" by simp
  note defs = run_def init_def loaded_def querySelectorAll_def attach_def dispatchEvent_def
    scheduleSave_def truthy_string_def truthy_var_def setTimeout_def clearTimeout_def
    advance_def fire_def run_callback_def fetch_def FormData_def calls_of_def settle_def
  have e: "settled (step (Settle 0 (Rejected ''offline'')) (run ?tr (init ?doc))) = [(0, Rejected ''offline'')]"
    "map req_time (calls_of 0 (run ?tr (init ?doc))) = [800]" "now (run ?tr (init ?doc)) = 800"
    by (simp_all add: defs)
  have u: "unhandled (run [Dispatch 0 ''input'', Advance 800, Settle 0 (Rejected ''offline'')] (init ?doc)) = []"
    using network_failure_suppressed [of "[Dispatch 0 ''input'', Advance 800, Settle 0 (Rejected ''offline'')]" ?doc]
    by blast
  have "calls_of 0 (run [Settle 0 (Rejected ''offline''), Dispatch 0 ''input'', Advance 800] (run ?tr (init ?doc))) =
        calls_of 0 (run ?tr (init ?doc)) @
          [save_request (forms (run ?tr (init ?doc))) 0 (now (run ?tr (init ?doc)) + 800)]"
    using h1 h2 h3 h4 network_failure_suppressed [of ?tr ?doc 0 "''offline''" 0 "''input''" 800]
    by blast
  then have "map req_time (calls_of 0 (run [Settle 0 (Rejected ''offline''), Dispatch 0 ''input'', Advance 800]
      (run ?tr (init ?doc)))) = [800, 1600]"
    by (simp add: e save_request_def)
  then show ?thesis using h1 h2 h3 e(1) u by simp
qed

lemma calls_step:
  assumes "reach doc s"
  shows "calls (step a s) = calls s @
     (case a of
        Advance d \<Rightarrow> map (\<lambda>tm. save_request (forms s) (the_form tm) (t_due tm)) (due_by (now s + d) s)
      | _ \<Rightarrow> [])"
proof -
  have w: "wf s" using assms by (rule reach_wf)
  show ?thesis
    by (cases a)
      (simp_all add: dispatch_frame [OF assms] other_frame settle_frame [OF w] advance_eq [OF w])
qed

lemma call_shape:
  "r \<in> set (calls (run tr (init doc))) \<Longrightarrow> \<exists>fs g t. r = save_request fs g t"
proof (induction tr arbitrary: r rule: rev_induct)
  case Nil
  then show ?case by (simp add: run_Nil init_fields)
next
  case (snoc a tr)
  let ?s = "run tr (init doc)"
  have e: "run (tr @ [a]) (init doc) = step a ?s" by (simp add: run_append run_Cons run_Nil)
  from snoc.prems have "r \<in> set (calls (step a ?s))" unfolding e .
  then consider "r \<in> set (calls ?s)"
    | d where "r \<in> set (map (\<lambda>tm. save_request (forms ?s) (the_form tm) (t_due tm)) (due_by (now ?s + d) ?s))"
    unfolding calls_step [OF reach_trace] by (cases a) auto
  then show ?case
  proof cases
    case 1
    then show ?thesis by (rule snoc.IH)
  next
    case 2
    then show ?thesis by auto
  qed
qed

lemma content_type_save_request: "content_type (save_request fs g t) = ''multipart/form-data''"
  by (simp add: content_type_def save_request_def FormData_def body_type_def)

text \<open>
  C6. No call exists before the first action, and an action only appends calls. Every
  call that an action appends, in any state that a run reaches, is a \<open>POST\<close> with the one
  header \<open>X-Requested-With: fetch\<close>, addressed to the endpoint that its form declared in
  the document, a form the script selected; its body is the \<open>FormData\<close> object of the
  entries of that form as they are when the action starts (the timer fires within it),
  which the browser sends as \<open>multipart/form-data\<close>; it is made at the due time of the
  timer, within the action; no reaction waits for the response, and the only reaction to
  a failure is the empty function. The same holds of every call in the log of any state
  that a run reaches. And in any such state, before or after a call was made, a response
  to any call, whatever its status and body, changes nothing but the log of settled
  promises, where it is entered once.
\<close>

theorem every_call_is_background_post:
  "calls (init doc) = [] \<and>
   take (length (calls (run tr (init doc)))) (calls (step a (run tr (init doc)))) =
     calls (run tr (init doc)) \<and>
   (r \<in> set (drop (length (calls (run tr (init doc)))) (calls (step a (run tr (init doc))))) \<longrightarrow>
      req_method r = ''POST'' \<and> req_headers r = [(''X-Requested-With'', ''fetch'')] \<and>
      marked doc (req_form r) \<and> req_input r = saveUrl (doc ! req_form r) \<and>
      truthy_string (req_input r) \<and>
      req_body r = FormDataBody (controls (forms (run tr (init doc)) ! req_form r)) \<and>
      content_type r = ''multipart/form-data'' \<and>
      req_then r = [] \<and> req_catch r = [EmptyCb] \<and>
      now (run tr (init doc)) < req_time r \<and> req_time r \<le> now (step a (run tr (init doc)))) \<and>
   (q \<in> set (calls (run tr' (init doc))) \<longrightarrow>
      req_method q = ''POST'' \<and> req_headers q = [(''X-Requested-With'', ''fetch'')] \<and>
      marked doc (req_form q) \<and> req_input q = saveUrl (doc ! req_form q) \<and>
      truthy_string (req_input q) \<and> content_type q = ''multipart/form-data'' \<and>
      req_then q = [] \<and> req_catch q = [EmptyCb] \<and> req_time q \<le> now (run tr' (init doc))) \<and>
   step (Settle i (Fulfilled status body)) (run tr' (init doc)) =
     (if i < length (calls (run tr' (init doc))) \<and> i \<notin> fst ` set (settled (run tr' (init doc)))
      then (run tr' (init doc))\<lparr>settled := settled (run tr' (init doc)) @ [(i, Fulfilled status body)]\<rparr>
      else run tr' (init doc))"
proof -
  let ?s = "run tr (init doc)"
  let ?t = "run tr' (init doc)"
  have rs: "reach doc ?s" by (rule reach_trace)
  have w: "wf ?s" using rs by (rule reach_wf)
  have rt: "reach doc ?t" by (rule reach_trace)
  have wt: "wf ?t" using rt by (rule reach_wf)
  have 0: "calls (init doc) = []" by (simp add: init_fields)
  have 1: "take (length (calls ?s)) (calls (step a ?s)) = calls ?s"
    by (simp add: calls_step [OF rs])
  have 2: "step (Settle i (Fulfilled status body)) ?t =
     (if i < length (calls ?t) \<and> i \<notin> fst ` set (settled ?t)
      then ?t\<lparr>settled := settled ?t @ [(i, Fulfilled status body)]\<rparr> else ?t)"
    by (simp add: settle_eq [OF wt])
  have 3: "req_method r = ''POST'' \<and> req_headers r = [(''X-Requested-With'', ''fetch'')] \<and>
      marked doc (req_form r) \<and> req_input r = saveUrl (doc ! req_form r) \<and>
      truthy_string (req_input r) \<and>
      req_body r = FormDataBody (controls (forms ?s ! req_form r)) \<and>
      content_type r = ''multipart/form-data'' \<and>
      req_then r = [] \<and> req_catch r = [EmptyCb] \<and>
      now ?s < req_time r \<and> req_time r \<le> now (step a ?s)"
    if h: "r \<in> set (drop (length (calls ?s)) (calls (step a ?s)))"
  proof -
    from h obtain d where a: "a = Advance d"
      and m': "r \<in> set (map (\<lambda>tm. save_request (forms ?s) (the_form tm) (t_due tm)) (due_by (now ?s + d) ?s))"
      unfolding calls_step [OF rs] by (cases a) auto
    have n: "now (step a ?s) = now ?s + d" unfolding a by (simp add: advance_frame [OF w])
    from m' obtain tm where m: "tm \<in> set (timers ?s)" and l: "t_due tm \<le> now ?s + d"
      and r: "r = save_request (forms ?s) (the_form tm) (t_due tm)"
      by (auto simp: due_by_def)
    note t = wf_timer [OF w m]
    have mk: "marked doc (the_form tm)" using t(5) by (simp add: reach_listening [OF rs])
    then have u: "saveUrl (forms ?s ! the_form tm) = saveUrl (doc ! the_form tm)"
      using reach_saveUrl [OF rs] by (simp add: marked_def)
    have c: "content_type r = ''multipart/form-data''" unfolding r by (rule content_type_save_request)
    show ?thesis
      using mk u t(3,6) l c by (simp add: r save_request_def FormData_def n)
  qed
  have 4: "req_method q = ''POST'' \<and> req_headers q = [(''X-Requested-With'', ''fetch'')] \<and>
      marked doc (req_form q) \<and> req_input q = saveUrl (doc ! req_form q) \<and>
      truthy_string (req_input q) \<and> content_type q = ''multipart/form-data'' \<and>
      req_then q = [] \<and> req_catch q = [EmptyCb] \<and> req_time q \<le> now ?t"
    if h: "q \<in> set (calls ?t)"
  proof -
    note c = wf_call [OF wt h]
    have mk: "marked doc (req_form q)" using c(1) by (simp add: reach_listening [OF rt])
    then have u: "saveUrl (forms ?t ! req_form q) = saveUrl (doc ! req_form q)"
      using reach_saveUrl [OF rt] by (simp add: marked_def)
    from call_shape [OF h] have ct: "content_type q = ''multipart/form-data''"
      by (auto simp: content_type_save_request)
    show ?thesis using c mk u ct by simp
  qed
  show ?thesis using 0 1 2 3 4 by blast
qed

theorem every_call_is_background_post_witness:
  "\<lparr>req_form = 0, req_time = 800, req_input = Some ''/save/42'', req_method = ''POST'',
     req_headers = [(''X-Requested-With'', ''fetch'')], req_body = FormDataBody [(''q'', ''a'')],
     req_then = [], req_catch = [EmptyCb]\<rparr>
     \<in> set (drop (length (calls (run [Dispatch 0 ''input'']
         (init [\<lparr>classList = [''autosave-form''], saveUrl = Some ''/save/42'', controls = [(''q'', ''a'')]\<rparr>]))))
       (calls (step (Advance 900) (run [Dispatch 0 ''input'']
         (init [\<lparr>classList = [''autosave-form''], saveUrl = Some ''/save/42'', controls = [(''q'', ''a'')]\<rparr>]))))) \<and>
   \<lparr>req_form = 0, req_time = 800, req_input = Some ''/save/42'', req_method = ''POST'',
     req_headers = [(''X-Requested-With'', ''fetch'')], req_body = FormDataBody [(''q'', ''a'')],
     req_then = [], req_catch = [EmptyCb]\<rparr>
     \<in> set (calls (run [Dispatch 0 ''input'', Advance 900]
         (init [\<lparr>classList = [''autosave-form''], saveUrl = Some ''/save/42'', controls = [(''q'', ''a'')]\<rparr>]))) \<and>
   content_type \<lparr>req_form = 0, req_time = 800, req_input = Some ''/save/42'', req_method = ''POST'',
     req_headers = [(''X-Requested-With'', ''fetch'')], req_body = FormDataBody [(''q'', ''a'')],
     req_then = [], req_catch = [EmptyCb]\<rparr> = ''multipart/form-data'' \<and>
   marked [\<lparr>classList = [''autosave-form''], saveUrl = Some ''/save/42'', controls = [(''q'', ''a'')]\<rparr>] 0 \<and>
   step (Settle 0 (Fulfilled 500 ''error'')) (run [Dispatch 0 ''input'', Advance 900]
       (init [\<lparr>classList = [''autosave-form''], saveUrl = Some ''/save/42'', controls = [(''q'', ''a'')]\<rparr>])) =
     (run [Dispatch 0 ''input'', Advance 900]
       (init [\<lparr>classList = [''autosave-form''], saveUrl = Some ''/save/42'', controls = [(''q'', ''a'')]\<rparr>]))
     \<lparr>settled := [(0, Fulfilled 500 ''error'')]\<rparr>"
proof -
  let ?doc = "[\<lparr>classList = [''autosave-form''], saveUrl = Some ''/save/42'', controls = [(''q'', ''a'')]\<rparr>]"
  let ?r = "\<lparr>req_form = 0, req_time = 800, req_input = Some ''/save/42'', req_method = ''POST'',
     req_headers = [(''X-Requested-With'', ''fetch'')], req_body = FormDataBody [(''q'', ''a'')],
     req_then = [], req_catch = [EmptyCb]\<rparr>"
  let ?sent = "run [Dispatch 0 ''input'', Advance 900] (init ?doc)"
  note defs = run_def init_def loaded_def querySelectorAll_def attach_def dispatchEvent_def
    scheduleSave_def truthy_string_def truthy_var_def setTimeout_def clearTimeout_def
    advance_def fire_def run_callback_def fetch_def FormData_def
  have h: "?r \<in> set (drop (length (calls (run [Dispatch 0 ''input''] (init ?doc))))
       (calls (step (Advance 900) (run [Dispatch 0 ''input''] (init ?doc)))))"
    by (simp add: defs)
  have k: "?r \<in> set (calls ?sent)" by (simp add: defs)
  have e: "length (calls ?sent) = 1" "settled ?sent = []" by (simp_all add: defs)
  note th = every_call_is_background_post [of ?doc "[Dispatch 0 ''input'']" "Advance 900" ?r ?r
      "[Dispatch 0 ''input'', Advance 900]" 0 500 "''error''"]
  have a: "content_type ?r = ''multipart/form-data''" "marked ?doc 0" using th h by simp_all
  have b: "step (Settle 0 (Fulfilled 500 ''error'')) ?sent = ?sent\<lparr>settled := [(0, Fulfilled 500 ''error'')]\<rparr>"
    using th unfolding e by simp
  show ?thesis using h k a b by blast
qed

text \<open>
  The claim as the specification words it, with the body in the usual encoding of a form
  (\<open>application/x-www-form-urlencoded\<close>), fails on the one call of a form with a single
  field: the script gives \<open>fetch\<close> a \<open>FormData\<close> object, which goes out as
  \<open>multipart/form-data\<close>.
\<close>

theorem body_is_urlencoded_counterexample:
  "map content_type (calls (run [Dispatch 0 ''input'', Advance 800]
     (init [\<lparr>classList = [''autosave-form''], saveUrl = Some ''/save/42'', controls = [(''q'', ''a'')]\<rparr>]))) =
     [''multipart/form-data''] \<and>
   map content_type (calls (run [Dispatch 0 ''input'', Advance 800]
     (init [\<lparr>classList = [''autosave-form''], saveUrl = Some ''/save/42'', controls = [(''q'', ''a'')]\<rparr>]))) \<noteq>
     [''application/x-www-form-urlencoded'']"
  by (simp add: run_def init_def loaded_def querySelectorAll_def attach_def dispatchEvent_def
      scheduleSave_def truthy_string_def truthy_var_def setTimeout_def clearTimeout_def
      advance_def fire_def run_callback_def fetch_def FormData_def content_type_def body_type_def)

lemma map_due_filter:
  "map t_due (filter (\<lambda>tm. Q (t_due tm)) xs) = filter Q (map t_due xs)"
  by (induction xs) simp_all

lemma view_step:
  assumes "reach doc s"
  shows "view f (step a s) = vstep doc f a (view f s)"
proof -
  have w: "wf s" using assms by (rule reach_wf)
  show ?thesis
  proof (cases a)
    case (Dispatch g ty)
    show ?thesis unfolding Dispatch
      by (simp add: view_def timers_of_dispatch [OF assms] dispatch_frame [OF assms] calls_of_def)
  next
    case (Edit g fs)
    show ?thesis unfolding Edit
      by (simp add: view_def edit_def timers_of_def calls_of_def nth_list_update)
  next
    case (AddForm fm)
    show ?thesis unfolding AddForm
      by (auto simp: view_def addForm_def timers_of_def calls_of_def nth_append)
  next
    case (Advance d)
    have md1: "map t_due (filter (\<lambda>tm. \<not> t_due tm \<le> now s + d) (timers_of f s)) =
        filter (\<lambda>t. \<not> t \<le> now s + d) (map t_due (timers_of f s))"
      by (rule map_due_filter)
    have md2: "map t_due (filter (\<lambda>tm. t_due tm \<le> now s + d) (timers_of f s)) =
        filter (\<lambda>t. t \<le> now s + d) (map t_due (timers_of f s))"
      by (rule map_due_filter)
    have rq: "map (\<lambda>tm. save_request (forms s) f (t_due tm))
          (filter (\<lambda>tm. t_due tm \<le> now s + d) (timers_of f s)) =
        map (view_request (if f < length (forms s) then Some (forms s ! f) else None) f)
          (filter (\<lambda>t. t \<le> now s + d) (map t_due (timers_of f s)))"
    proof (cases "timers_of f s = []")
      case True
      then show ?thesis by simp
    next
      case False
      then obtain tm where m: "tm \<in> set (timers s)" and c: "t_callback tm = SaveCb f"
        by (auto simp: timers_of_def filter_empty_conv)
      from wf_timer(1,2) [OF w m] c have "f < length (forms s)" by simp
      then show ?thesis
        by (simp add: md2 [symmetric] save_request_def view_request_def FormData_def)
    qed
    show ?thesis unfolding Advance
      by (simp add: view_def timers_of_advance [OF w] calls_of_advance [OF w]
          advance_frame [OF w] md1 rq)
  next
    case (Settle i oc)
    show ?thesis unfolding Settle
      by (simp add: view_def timers_of_def calls_of_def settle_frame [OF w])
  qed
qed

lemma view_run:
  assumes "reach doc s"
  shows "view f (run tr s) = fold (vstep doc f) tr (view f s)"
  using assms
proof (induction tr arbitrary: s)
  case Nil
  then show ?case by (simp add: run_Nil)
next
  case (Cons a tr)
  show ?case
    using Cons.IH [OF reach_step [OF Cons.prems]] view_step [OF Cons.prems]
    by (simp add: run_Cons)
qed

lemma vstep_foreign: "foreign f a \<Longrightarrow> vstep doc f a v = v"
  by (cases a; cases v) simp_all

lemma fold_own: "fold (vstep doc f) (own f tr) v = fold (vstep doc f) tr v"
  by (induction tr arbitrary: v) (simp_all add: own_def vstep_foreign)

lemma foreign_frame:
  assumes "reach doc s" "foreign f a"
  shows "timers_of f (step a s) = timers_of f s" "timeoutId (step a s) f = timeoutId s f"
proof -
  show "timers_of f (step a s) = timers_of f s"
  proof (cases a)
    case (Dispatch g ty)
    then have "g \<noteq> f" using assms(2) by simp
    then show ?thesis unfolding Dispatch step.simps timers_of_dispatch [OF assms(1)] by simp
  qed (use assms(2) in \<open>simp_all add: timers_of_def other_frame\<close>)
  show "timeoutId (step a s) f = timeoutId s f"
    using assms(2)
    by (cases a) (simp_all add: dispatch_frame [OF assms(1)] other_frame)
qed

text \<open>
  C7. Forms do not interfere. What a run shows of a form (the clock, the form and its
  controls, the due times of its timers, the calls made for it) is what the run shows
  with every event and every edit of the other forms removed. And one such action on
  another form, in any state that a run reaches, leaves all of that as it is, together
  with the form's timers themselves and its variable \<open>timeoutId\<close>.
\<close>

theorem forms_do_not_interfere:
  "view f (run tr (init doc)) = view f (run (own f tr) (init doc)) \<and>
   (foreign f a \<longrightarrow>
      view f (step a (run tr (init doc))) = view f (run tr (init doc)) \<and>
      timers_of f (step a (run tr (init doc))) = timers_of f (run tr (init doc)) \<and>
      timeoutId (step a (run tr (init doc))) f = timeoutId (run tr (init doc)) f)"
proof -
  have 1: "view f (run tr (init doc)) = view f (run (own f tr) (init doc))"
    by (simp add: view_run [OF reach_init] fold_own)
  have 2: "foreign f a \<Longrightarrow> view f (step a (run tr (init doc))) = view f (run tr (init doc))"
    by (simp add: view_step [OF reach_trace] vstep_foreign)
  show ?thesis using 1 2 foreign_frame [OF reach_trace, of f a tr doc] by blast
qed

theorem forms_do_not_interfere_witness:
  "foreign 0 (Dispatch 1 ''input'') \<and>
   own 0 [Dispatch 0 ''input'', Advance 300, Edit 1 [(''b'', ''y'')], Dispatch 1 ''input'', Advance 600] =
     [Dispatch 0 ''input'', Advance 300, Advance 600] \<and>
   view 0 (run [Dispatch 0 ''input'', Advance 300, Edit 1 [(''b'', ''y'')], Dispatch 1 ''input'', Advance 600]
     (init [\<lparr>classList = [''autosave-form''], saveUrl = Some ''/a'', controls = []\<rparr>,
            \<lparr>classList = [''autosave-form''], saveUrl = Some ''/b'', controls = []\<rparr>])) =
   view 0 (run [Dispatch 0 ''input'', Advance 300, Advance 600]
     (init [\<lparr>classList = [''autosave-form''], saveUrl = Some ''/a'', controls = []\<rparr>,
            \<lparr>classList = [''autosave-form''], saveUrl = Some ''/b'', controls = []\<rparr>])) \<and>
   timers_of 0 (step (Dispatch 1 ''input'') (run [Dispatch 0 ''input'', Advance 300]
     (init [\<lparr>classList = [''autosave-form''], saveUrl = Some ''/a'', controls = []\<rparr>,
            \<lparr>classList = [''autosave-form''], saveUrl = Some ''/b'', controls = []\<rparr>]))) =
   timers_of 0 (run [Dispatch 0 ''input'', Advance 300]
     (init [\<lparr>classList = [''autosave-form''], saveUrl = Some ''/a'', controls = []\<rparr>,
            \<lparr>classList = [''autosave-form''], saveUrl = Some ''/b'', controls = []\<rparr>]))"
proof -
  let ?doc = "[\<lparr>classList = [''autosave-form''], saveUrl = Some ''/a'', controls = []\<rparr>,
            \<lparr>classList = [''autosave-form''], saveUrl = Some ''/b'', controls = []\<rparr>]"
  have h: "foreign 0 (Dispatch 1 ''input'')" by simp
  have o: "own 0 [Dispatch 0 ''input'', Advance 300, Edit 1 [(''b'', ''y'')], Dispatch 1 ''input'', Advance 600] =
     [Dispatch 0 ''input'', Advance 300, Advance 600]" by (simp add: own_def)
  have a: "view 0 (run [Dispatch 0 ''input'', Advance 300, Edit 1 [(''b'', ''y'')], Dispatch 1 ''input'', Advance 600] (init ?doc)) =
      view 0 (run [Dispatch 0 ''input'', Advance 300, Advance 600] (init ?doc))"
    using forms_do_not_interfere [of 0 "[Dispatch 0 ''input'', Advance 300, Edit 1 [(''b'', ''y'')], Dispatch 1 ''input'', Advance 600]" ?doc]
    unfolding o by blast
  have b: "timers_of 0 (step (Dispatch 1 ''input'') (run [Dispatch 0 ''input'', Advance 300] (init ?doc))) =
      timers_of 0 (run [Dispatch 0 ''input'', Advance 300] (init ?doc))"
    using h forms_do_not_interfere [of 0 "[Dispatch 0 ''input'', Advance 300]" ?doc "Dispatch 1 ''input''"]
    by blast
  show ?thesis using h o a b by blast
qed

end
